theory Spec2Isabelle
  imports Main "HOL-Library.Word" "HOL-Library.Monad_Syntax"
begin


section \<open>Machine integers and memory\<close>

text \<open>
  The source is C for an LP64 platform: \<^verbatim>\<open>unsigned long\<close>, \<^verbatim>\<open>size_t\<close> and \<^verbatim>\<open>long\<close> are 64 bits wide,
  \<^verbatim>\<open>int\<close> is 32 bits wide and a pointer occupies 8 bytes. Unsigned arithmetic wraps around, which the
  word types do by themselves; a signed quantity is a word read with \<open>sint\<close>.

  Modelled from the spec: the header \<^verbatim>\<open>redisraft.h\<close> and the Raft library header that declare
  \<^verbatim>\<open>raft_index_t\<close>, \<^verbatim>\<open>raft_term_t\<close>, \<^verbatim>\<open>raft_node_id_t\<close>, \<^verbatim>\<open>raft_entry_t\<close>, \<^verbatim>\<open>RaftLog\<close>, \<^verbatim>\<open>EntryCache\<close>,
  \<^verbatim>\<open>RAFTLOG_VERSION\<close> and \<^verbatim>\<open>RAFT_DBID_LEN\<close> are not part of the sources. The types follow the
  data model of the specification (index and term unsigned 64 bit, entry id unsigned 32 bit, entry
  type a small non-negative integer, vote a signed integer that is printed in 11 characters and is
  therefore 32 bits wide); the version is 1 and the identifier length 32, as in the
  specification's scenarios.
\<close>

type_synonym ulong = "64 word"
type_synonym raft_index_t = "64 word"
type_synonym raft_term_t = "64 word"
type_synonym raft_node_id_t = "32 word"
type_synonym raft_entry_id_t = "32 word"

definition sizeof_ptr :: ulong where
  "sizeof_ptr = 8"

text \<open>
  A function of the source that can abort the process (a failed \<^verbatim>\<open>assert\<close>, a \<^verbatim>\<open>PANIC\<close>) or run
  into undefined behaviour (an access outside an allocated array, a division by zero) returns an
  \<open>option\<close>, and \<open>None\<close> is that outcome. Error codes that the C functions return are ordinary
  values inside \<open>Some\<close>. Memory allocation is assumed to succeed.
\<close>

definition load :: "'a list \<Rightarrow> nat \<Rightarrow> 'a option" where
  "load xs i = (if i < length xs then Some (xs ! i) else None)"

definition store :: "'a list \<Rightarrow> nat \<Rightarrow> 'a \<Rightarrow> 'a list option" where
  "store xs i v = (if i < length xs then Some (xs[i := v]) else None)"

definition assert' :: "bool \<Rightarrow> unit option" where
  "assert' b = (if b then Some () else None)"

text \<open>
  \<^verbatim>\<open>realloc\<close> to \<open>nbytes\<close> bytes of an array of pointers: the old slots are kept, the slots that
  are new hold whatever the allocator left there, given by \<open>junk\<close>.
\<close>

definition RedisModule_Realloc :: "(nat \<Rightarrow> 'a) \<Rightarrow> 'a list \<Rightarrow> ulong \<Rightarrow> 'a list" where
  "RedisModule_Realloc junk xs nbytes =
     map (\<lambda>i. if i < length xs then xs ! i else junk i) [0..<unat nbytes div unat sizeof_ptr]"

text \<open>\<^verbatim>\<open>memmove\<close> and \<^verbatim>\<open>memset\<close> on whole slots of one array; the byte count is a \<^verbatim>\<open>size_t\<close>.\<close>

definition memmove :: "'a list \<Rightarrow> nat \<Rightarrow> nat \<Rightarrow> ulong \<Rightarrow> 'a list option" where
  "memmove xs dst src nbytes =
     (let n = unat nbytes div unat sizeof_ptr in
      if dst + n \<le> length xs \<and> src + n \<le> length xs
      then Some (take dst xs @ take n (drop src xs) @ drop (dst + n) xs)
      else None)"

definition memset :: "'a list \<Rightarrow> nat \<Rightarrow> 'a \<Rightarrow> ulong \<Rightarrow> 'a list option" where
  "memset xs dst v nbytes =
     (let n = unat nbytes div unat sizeof_ptr in
      if dst + n \<le> length xs
      then Some (take dst xs @ replicate n v @ drop (dst + n) xs)
      else None)"

section \<open>Entries cache\<close>

text \<open>
  The cache is a ring of pointers to entries; \<open>None\<close> in a slot is the \<^verbatim>\<open>NULL\<close> pointer. The type
  \<open>'p\<close> is the type of non-null entry pointers. \<^verbatim>\<open>raft_entry_hold\<close> and \<^verbatim>\<open>raft_entry_release\<close>
  belong to the Raft library and change only the reference count stored in the entry, which is not
  part of the cache; the model leaves them out.
\<close>

record 'p EntryCache =
  ptrs :: "'p option list"
  start :: ulong
  len :: ulong
  size' :: ulong
  start_idx :: raft_index_t

definition EntryCacheNew :: "ulong \<Rightarrow> 'p EntryCache" where
  "EntryCacheNew initial_size =
     \<lparr>ptrs = replicate (unat initial_size) None, start = 0, len = 0, size' = initial_size,
      start_idx = 0\<rparr>"

definition EntryCacheAppend ::
  "(nat \<Rightarrow> 'p option) \<Rightarrow> 'p EntryCache \<Rightarrow> 'p \<Rightarrow> raft_index_t \<Rightarrow> 'p EntryCache option" where
  "EntryCacheAppend junk cache0 ety idx =
     do {
       let cache = (if start_idx cache0 = 0 then cache0\<lparr>start_idx := idx\<rparr> else cache0);
       assert' (start_idx cache + len cache = idx);
       cache \<leftarrow>
         (if len cache = size' cache then
            do {
              let new_size = size' cache * 2;
              let p = RedisModule_Realloc junk (ptrs cache) (new_size * sizeof_ptr);
              p \<leftarrow>
                (if start cache > 0 then
                   do {
                     p \<leftarrow> memmove p (unat (size' cache)) 0 (start cache * sizeof_ptr);
                     memset p 0 None (start cache * sizeof_ptr)
                   }
                 else Some p);
              Some (cache\<lparr>ptrs := p, size' := new_size\<rparr>)
            }
          else Some cache);
       assert' (size' cache \<noteq> 0);
       p \<leftarrow> store (ptrs cache) (unat ((start cache + len cache) mod size' cache)) (Some ety);
       Some (cache\<lparr>ptrs := p, len := len cache + 1\<rparr>)
     }"

definition EntryCacheGet :: "'p EntryCache \<Rightarrow> raft_index_t \<Rightarrow> 'p option option" where
  "EntryCacheGet cache idx =
     (if idx < start_idx cache then Some None
      else
        let relidx = idx - start_idx cache in
        if relidx \<ge> len cache then Some None
        else
          do {
            assert' (size' cache \<noteq> 0);
            load (ptrs cache) (unat ((start cache + relidx) mod size' cache))
          })"

function DeleteHead_loop ::
  "raft_index_t \<Rightarrow> 'p EntryCache \<Rightarrow> 64 word \<Rightarrow> (64 word \<times> 'p EntryCache) option" where
  "DeleteHead_loop first_idx cache deleted =
     (if first_idx > start_idx cache \<and> len cache > 0 then
        do {
          p \<leftarrow> store (ptrs cache) (unat (start cache)) None;
          let st = start cache + 1;
          let st = (if st \<ge> size' cache then 0 else st);
          DeleteHead_loop first_idx
            (cache\<lparr>start_idx := start_idx cache + 1, ptrs := p, start := st,
                   len := len cache - 1\<rparr>)
            (deleted + 1)
        }
      else Some (deleted, cache))"
  by pat_completeness auto
termination
  by (relation "measure (\<lambda>(f, c, d). unat (len c))")
    (simp_all add: unat_minus_one word_greater_zero_iff unat_gt_0)

declare DeleteHead_loop.simps [simp del]

text \<open>The result is the \<^verbatim>\<open>long\<close> that the function returns (\<open>- 1\<close> is the error sentinel) and the cache.\<close>

definition EntryCacheDeleteHead ::
  "'p EntryCache \<Rightarrow> raft_index_t \<Rightarrow> (64 word \<times> 'p EntryCache) option" where
  "EntryCacheDeleteHead cache first_idx =
     (if first_idx < start_idx cache then Some (- 1, cache)
      else
        do {
          (deleted, cache) \<leftarrow> DeleteHead_loop first_idx cache 0;
          let cache = (if len cache = 0 then cache\<lparr>start_idx := 0\<rparr> else cache);
          Some (deleted, cache)
        })"

text \<open>
  The loop of \<^verbatim>\<open>EntryCacheDeleteTail\<close> over the indices from \<open>i\<close> to the last cached one; \<open>len\<close> is
  reduced after the loop.
\<close>

function DeleteTail_loop ::
  "raft_index_t \<Rightarrow> 'p EntryCache \<Rightarrow> 64 word \<Rightarrow> (64 word \<times> 'p EntryCache) option" where
  "DeleteTail_loop i cache deleted =
     (if i < start_idx cache + len cache then
        do {
          let relidx = i - start_idx cache;
          assert' (size' cache \<noteq> 0);
          let ofs = (start cache + relidx) mod size' cache;
          p \<leftarrow> store (ptrs cache) (unat ofs) None;
          DeleteTail_loop (i + 1) (cache\<lparr>ptrs := p\<rparr>) (deleted + 1)
        }
      else Some (deleted, cache))"
  by pat_completeness auto
termination
proof (relation "measure (\<lambda>(i, c, d). unat (start_idx c + len c) - unat i)")
  show "wf (measure (\<lambda>(i, c, d). unat (start_idx c + len c) - unat i))" by simp
next
  fix i :: raft_index_t and cache :: "'p EntryCache" and deleted :: "64 word"
    and x :: unit and p :: "'p option list"
  assume lt: "i < start_idx cache + len cache"
  then have "unat i < unat (start_idx cache + len cache)" by (simp add: word_less_nat_alt)
  moreover have "unat (start_idx cache + len cache) < 2 ^ 64"
    using unsigned_less [of "start_idx cache + len cache", where ?'a = nat] by simp
  ultimately have "unat (i + 1) = unat i + 1"
    by (simp add: unat_add_lem [THEN iffD1])
  with \<open>unat i < unat (start_idx cache + len cache)\<close>
  show "((i + 1, cache\<lparr>ptrs := p\<rparr>, deleted + 1), i, cache, deleted)
      \<in> measure (\<lambda>(i, c, d). unat (start_idx c + len c) - unat i)"
    by simp
qed

declare DeleteTail_loop.simps [simp del]

definition EntryCacheDeleteTail ::
  "'p EntryCache \<Rightarrow> raft_index_t \<Rightarrow> (64 word \<times> 'p EntryCache) option" where
  "EntryCacheDeleteTail cache idx =
     (if idx \<ge> start_idx cache + len cache then Some (- 1, cache)
      else if idx < start_idx cache then Some (- 1, cache)
      else
        do {
          (deleted, cache) \<leftarrow> DeleteTail_loop idx cache 0;
          let cache = cache\<lparr>len := len cache - deleted\<rparr>;
          let cache = (if len cache = 0 then cache\<lparr>start_idx := 0\<rparr> else cache);
          Some (deleted, cache)
        })"

text \<open>
  The ring contract: the array has \<open>size'\<close> slots and fits into the address space, \<open>start\<close> and
  \<open>len\<close> are in range, the indices \<open>start_idx .. start_idx + len - 1\<close> do not wrap, and each of
  them has an entry in the ring.
\<close>

definition ring_contract :: "'p EntryCache \<Rightarrow> bool" where
  "ring_contract c \<longleftrightarrow>
     length (ptrs c) = unat (size' c) \<and>
     unat (size' c) * unat sizeof_ptr < 2 ^ 64 \<and>
     start c < size' c \<and>
     len c \<le> size' c \<and>
     unat (start_idx c) + unat (len c) \<le> 2 ^ 64 \<and>
     list_all (\<lambda>rel. ptrs c ! ((unat (start c) + rel) mod unat (size' c)) \<noteq> None)
       [0..<unat (len c)]"

text \<open>
  The cache contract adds the anchoring that the functions maintain between calls: an empty cache
  is unanchored (\<open>start_idx = 0\<close>), and a cache that holds entries is anchored at a log index (log
  indices start at 1).
\<close>

definition cache_contract :: "'p EntryCache \<Rightarrow> bool" where
  "cache_contract c \<longleftrightarrow> ring_contract c \<and> (len c = 0 \<longleftrightarrow> start_idx c = 0)"

definition cached :: "'p EntryCache \<Rightarrow> raft_index_t \<Rightarrow> bool" where
  "cached c k \<longleftrightarrow> start_idx c \<le> k \<and> k - start_idx c < len c"

section \<open>Files and streams\<close>

text \<open>
  A stream of the C library over a file. The file is the list of its elements: bytes for the log
  file, 64-bit offsets for the index file, whose every access is one aligned \<^verbatim>\<open>off64_t\<close>. A stream
  opened in append mode writes at the end of the file whatever its position is, and its position
  is the end of the file after a write. \<open>faults\<close> says for each coming call that can fail
  (a write, a flush, a sync, a truncation, the opening of the file again) whether it does; when
  the list is used up nothing fails. A read that fails is a read at the end of the file.
\<close>

record 'a FILE =
  contents :: "'a list"
  pos :: nat
  append_mode :: bool
  faults :: "bool list"

definition take_fault :: "'a FILE \<Rightarrow> bool \<times> 'a FILE" where
  "take_fault f = (case faults f of [] \<Rightarrow> (False, f) | b # bs \<Rightarrow> (b, f\<lparr>faults := bs\<rparr>))"

text \<open>Writing \<open>xs\<close>; a gap between the end of the file and the position reads as \<open>z\<close> (zero).\<close>

definition put :: "'a \<Rightarrow> 'a list \<Rightarrow> 'a FILE \<Rightarrow> 'a FILE" where
  "put z xs f =
     (let p = (if append_mode f then length (contents f) else pos f);
          old = contents f @ replicate (p - length (contents f)) z
      in f\<lparr>contents := take p old @ xs @ drop (p + length xs) old, pos := p + length xs\<rparr>)"

text \<open>The stream after \<open>k\<close> calls that could fail.\<close>

definition ticks :: "nat \<Rightarrow> 'a FILE \<Rightarrow> 'a FILE" where
  "ticks k f = f\<lparr>faults := drop k (faults f)\<rparr>"

text \<open>\<open>wrote z f xs f'\<close>: the stream \<open>f'\<close> is \<open>f\<close> after calls that wrote \<open>xs\<close> and did not fail.\<close>

definition wrote :: "'a \<Rightarrow> 'a FILE \<Rightarrow> 'a list \<Rightarrow> 'a FILE \<Rightarrow> bool" where
  "wrote z f xs f' \<longleftrightarrow> (\<exists>k. f' = put z xs (ticks k f))"

definition NUL :: char where
  "NUL = CHR 0x00"

definition fprintf :: "char FILE \<Rightarrow> string \<Rightarrow> int \<times> char FILE" where
  "fprintf f s =
     (case take_fault f of
        (True, f') \<Rightarrow> (- 1, f')
      | (False, f') \<Rightarrow> (int (length s), put NUL s f'))"

text \<open>
  \<^verbatim>\<open>fwrite\<close> returns the number of elements written: all of them, or none when it fails. Writing
  no element returns 0 and leaves the stream as it is.
\<close>

definition fwrite :: "'a \<Rightarrow> 'a list \<Rightarrow> 'a FILE \<Rightarrow> nat \<times> 'a FILE" where
  "fwrite z xs f =
     (if xs = [] then (0, f)
      else
        case take_fault f of
          (True, f') \<Rightarrow> (0, f')
        | (False, f') \<Rightarrow> (length xs, put z xs f'))"

definition fflush :: "'a FILE \<Rightarrow> int \<times> 'a FILE" where
  "fflush f = (case take_fault f of (True, f') \<Rightarrow> (- 1, f') | (False, f') \<Rightarrow> (0, f'))"

definition fsync :: "'a FILE \<Rightarrow> int \<times> 'a FILE" where
  "fsync f = (case take_fault f of (True, f') \<Rightarrow> (- 1, f') | (False, f') \<Rightarrow> (0, f'))"

text \<open>\<^verbatim>\<open>ftruncate\<close> cuts the file, or extends it with zeros; the position of the stream stays.\<close>

definition ftruncate :: "'a \<Rightarrow> 'a FILE \<Rightarrow> nat \<Rightarrow> int \<times> 'a FILE" where
  "ftruncate z f n =
     (case take_fault f of
        (True, f') \<Rightarrow> (- 1, f')
      | (False, f') \<Rightarrow>
          (0, f'\<lparr>contents := take n (contents f') @ replicate (n - length (contents f')) z\<rparr>))"

text \<open>\<^verbatim>\<open>fseek\<close> from the start of the file, in elements; a negative offset is refused.\<close>

definition fseek :: "'a FILE \<Rightarrow> int \<Rightarrow> int \<times> 'a FILE" where
  "fseek f off = (if off < 0 then (- 1, f) else (0, f\<lparr>pos := nat off\<rparr>))"

definition ftell :: "'a FILE \<Rightarrow> nat" where
  "ftell f = pos f"

text \<open>\<^verbatim>\<open>fread\<close> of \<open>n\<close> elements gives the elements that are there, at most \<open>n\<close>.\<close>

definition fread :: "nat \<Rightarrow> 'a FILE \<Rightarrow> 'a list \<times> 'a FILE" where
  "fread n f =
     (let xs = take n (drop (pos f) (contents f)) in (xs, f\<lparr>pos := pos f + length xs\<rparr>))"

text \<open>
  \<^verbatim>\<open>fgets\<close> into a buffer of \<open>n\<close> bytes reads up to and with the next newline, at most \<open>n - 1\<close>
  bytes; at the end of the file it returns \<^verbatim>\<open>NULL\<close>.
\<close>

fun fgets_line :: "nat \<Rightarrow> string \<Rightarrow> string" where
  "fgets_line 0 s = []"
| "fgets_line (Suc n) [] = []"
| "fgets_line (Suc n) (c # cs) = (if c = CHR 0x0A then [c] else c # fgets_line n cs)"

definition fgets :: "nat \<Rightarrow> char FILE \<Rightarrow> (string \<times> char FILE) option" where
  "fgets n f =
     (let line = fgets_line (n - 1) (drop (pos f) (contents f))
      in if line = [] then None else Some (line, f\<lparr>pos := pos f + length line\<rparr>))"

text \<open>
  Opening the file of a stream again, as \<^verbatim>\<open>fclose\<close> and \<^verbatim>\<open>fopen\<close> do: the new stream starts at
  position 0. The outcome \<open>None\<close> is \<^verbatim>\<open>fopen\<close> returning \<^verbatim>\<open>NULL\<close>.
\<close>

definition reopen :: "'a FILE \<Rightarrow> bool \<Rightarrow> 'a FILE option" where
  "reopen f app =
     (case take_fault f of
        (True, f') \<Rightarrow> None
      | (False, f') \<Rightarrow> Some (f'\<lparr>pos := 0, append_mode := app\<rparr>))"

section \<open>Strings of the C library\<close>

text \<open>A buffer read as a C string ends before its first NUL byte.\<close>

definition c_str :: "string \<Rightarrow> string" where
  "c_str s = takeWhile (\<lambda>c. c \<noteq> NUL) s"

definition isspace :: "char \<Rightarrow> bool" where
  "isspace c \<longleftrightarrow> c \<in> set [CHR '' '', CHR 0x09, CHR 0x0A, CHR 0x0B, CHR 0x0C, CHR 0x0D]"

definition isdigit :: "char \<Rightarrow> bool" where
  "isdigit c \<longleftrightarrow> (48::nat) \<le> of_char c \<and> of_char c \<le> (57::nat)"

definition digit_val :: "char \<Rightarrow> nat" where
  "digit_val c = of_char c - 48"

text \<open>The digit for a value below 10.\<close>

definition digit_char :: "nat \<Rightarrow> char" where
  "digit_char d = ''0123456789'' ! d"

definition toupper :: "char \<Rightarrow> char" where
  "toupper c =
     (case map_of (zip ''abcdefghijklmnopqrstuvwxyz'' ''ABCDEFGHIJKLMNOPQRSTUVWXYZ'') c of
        Some u \<Rightarrow> u
      | None \<Rightarrow> c)"

definition strcasecmp_eq :: "string \<Rightarrow> string \<Rightarrow> bool" where
  "strcasecmp_eq a b \<longleftrightarrow> map toupper a = map toupper b"

text \<open>The value of a run of decimal digits.\<close>

definition digits_val :: "string \<Rightarrow> nat" where
  "digits_val ds = foldl (\<lambda>acc c. 10 * acc + digit_val c) 0 ds"

text \<open>
  The common start of \<^verbatim>\<open>strtoul\<close> and \<^verbatim>\<open>strtol\<close> in base 10: white space is skipped, one sign is
  accepted, the digits follow. The result is whether the sign is a minus, the digits, and what
  follows them.
\<close>

definition scan_number :: "string \<Rightarrow> bool \<times> string \<times> string" where
  "scan_number nptr =
     (let s1 = dropWhile isspace nptr;
          (neg, s2) =
            (case s1 of
               [] \<Rightarrow> (False, [])
             | c # cs \<Rightarrow>
                 if c = CHR ''-'' then (True, cs)
                 else if c = CHR ''+'' then (False, cs)
                 else (False, s1))
      in (neg, takeWhile isdigit s2, dropWhile isdigit s2))"

text \<open>
  \<^verbatim>\<open>strtoul (nptr, &eptr, 10)\<close>: the value and the string at \<^verbatim>\<open>eptr\<close>. Without digits the value is 0
  and \<^verbatim>\<open>eptr\<close> is \<^verbatim>\<open>nptr\<close>; a value that does not fit is \<^verbatim>\<open>ULONG_MAX\<close>; a minus sign negates the
  value as an unsigned number.
\<close>

definition strtoul :: "string \<Rightarrow> ulong \<times> string" where
  "strtoul nptr =
     (let (neg, ds, rest) = scan_number nptr
      in if ds = [] then (0, nptr)
         else
           let v = digits_val ds
           in ((if v \<ge> 2 ^ 64 then - 1 else if neg then - word_of_nat v else word_of_nat v),
               rest))"

text \<open>\<^verbatim>\<open>strtol\<close>: as before, with a value outside the range replaced by the nearest bound.\<close>

definition strtol :: "string \<Rightarrow> 64 word \<times> string" where
  "strtol nptr =
     (let (neg, ds, rest) = scan_number nptr
      in if ds = [] then (0, nptr)
         else
           let v = digits_val ds
           in ((if neg then (if v > 2 ^ 63 then word_of_nat (2 ^ 63) else - word_of_nat v)
                else (if v \<ge> 2 ^ 63 then word_of_nat (2 ^ 63 - 1) else word_of_nat v)),
               rest))"

text \<open>The character at \<^verbatim>\<open>eptr\<close>; at the end of the string it is the terminating NUL.\<close>

definition deref :: "string \<Rightarrow> char" where
  "deref s = (case s of [] \<Rightarrow> NUL | c # _ \<Rightarrow> c)"

section \<open>Formatted output\<close>

function dec :: "nat \<Rightarrow> string" where
  "dec n = (if n < 10 then [digit_char n] else dec (n div 10) @ [digit_char (n mod 10)])"
  by pat_completeness auto
termination
  by (relation "measure id") auto

declare dec.simps [simp del]

definition zero_pad :: "nat \<Rightarrow> string \<Rightarrow> string" where
  "zero_pad width s = replicate (width - length s) (CHR ''0'') @ s"

text \<open>\<^verbatim>\<open>%lu\<close> and \<^verbatim>\<open>%zu\<close>, and \<^verbatim>\<open>%0*lu\<close> with its width.\<close>

definition fmt_lu :: "ulong \<Rightarrow> string" where
  "fmt_lu v = dec (unat v)"

definition fmt_0lu :: "nat \<Rightarrow> ulong \<Rightarrow> string" where
  "fmt_0lu width v = zero_pad width (dec (unat v))"

text \<open>\<^verbatim>\<open>%ld\<close>, and \<^verbatim>\<open>%0*ld\<close> with its width: the sign comes first and counts for the width.\<close>

definition fmt_ld :: "64 word \<Rightarrow> string" where
  "fmt_ld v = (if sint v < 0 then CHR ''-'' # dec (nat (- sint v)) else dec (nat (sint v)))"

definition fmt_0ld :: "nat \<Rightarrow> 64 word \<Rightarrow> string" where
  "fmt_0ld width v =
     (if sint v < 0 then CHR ''-'' # zero_pad (width - 1) (dec (nat (- sint v)))
      else zero_pad width (dec (nat (sint v))))"

definition CRLF :: string where
  "CRLF = [CHR 0x0D, CHR 0x0A]"

section \<open>Raw writing of the Raft log\<close>

datatype RRStatus = RR_OK | RR_ERROR

definition RAFTLOG_VERSION :: ulong where
  "RAFTLOG_VERSION = 1"

definition RAFT_DBID_LEN :: nat where
  "RAFT_DBID_LEN = 32"

text \<open>
  An entry of the Raft library with the fields that the log stores. \<^verbatim>\<open>data_len\<close> is the length of
  \<open>data\<close>.
\<close>

record raft_entry =
  term' :: raft_term_t
  id' :: raft_entry_id_t
  type' :: "32 word"
  data :: string

definition data_len :: "raft_entry \<Rightarrow> nat" where
  "data_len e = length (data e)"

text \<open>
  The log: the fields of \<^verbatim>\<open>struct RaftLog\<close> (\<open>log_term\<close> is its field \<^verbatim>\<open>term\<close>), the stream \<open>file'\<close> on
  the log file and the stream \<open>idxfile\<close> on the index file.
\<close>

record RaftLog =
  dbid :: string
  num_entries :: ulong
  snapshot_last_term :: raft_term_t
  snapshot_last_idx :: raft_index_t
  vote :: raft_node_id_t
  log_term :: raft_term_t
  index :: raft_index_t
  no_fsync :: bool
  file' :: "char FILE"
  idxfile :: "64 word FILE"

text \<open>The conversion of a \<^verbatim>\<open>size_t\<close> to the \<^verbatim>\<open>int\<close> that a function returns.\<close>

definition int_of_size_t :: "nat \<Rightarrow> int" where
  "int_of_size_t n = sint (word_of_nat n :: 32 word)"

definition writeBegin :: "char FILE \<Rightarrow> 32 word \<Rightarrow> int \<times> char FILE" where
  "writeBegin logfile length' =
     (let (n, f) = fprintf logfile (''*'' @ dec (unat length') @ CRLF)
      in if n \<le> 0 then (- 1, f) else (n, f))"

definition writeEnd :: "char FILE \<Rightarrow> bool \<Rightarrow> int \<times> char FILE" where
  "writeEnd logfile nofsync =
     (let (r, f) = fflush logfile
      in if r < 0 then (- 1, f)
         else if nofsync then (0, f)
         else
           let (r, f) = fsync f
           in if r < 0 then (- 1, f) else (0, f))"

text \<open>Every call in the source passes the length of the buffer as \<open>buf_len\<close>.\<close>

definition writeBuffer :: "char FILE \<Rightarrow> string \<Rightarrow> nat \<Rightarrow> int \<times> char FILE" where
  "writeBuffer logfile buf buf_len =
     (let (n, f) = fprintf logfile (''$'' @ dec buf_len @ CRLF)
      in if n \<le> 0 then (- 1, f)
         else
           let (w, f) = fwrite NUL (take buf_len buf) f
           in if w < buf_len then (- 1, f)
              else
                let (w, f) = fwrite NUL CRLF f
                in if w < 2 then (- 1, f)
                   else (int_of_size_t (nat n + buf_len + 2), f))"

text \<open>
  The number is printed into a buffer of 25 bytes with \<^verbatim>\<open>snprintf\<close> limited to 24, which keeps at
  most 23 characters. The assertion \<^verbatim>\<open>pad < sizeof(buf)\<close> holds for every pad that the source
  passes (0, 4, 11 and 20).
\<close>

definition writeUnsignedInteger :: "char FILE \<Rightarrow> ulong \<Rightarrow> nat \<Rightarrow> int \<times> char FILE" where
  "writeUnsignedInteger logfile val pad =
     (let buf = take 23 (if pad \<noteq> 0 then fmt_0lu pad val else fmt_lu val);
          (n, f) = fprintf logfile (''$'' @ dec (length buf) @ CRLF @ buf @ CRLF)
      in if n \<le> 0 then (- 1, f) else (n, f))"

definition writeInteger :: "char FILE \<Rightarrow> 64 word \<Rightarrow> nat \<Rightarrow> int \<times> char FILE" where
  "writeInteger logfile val pad =
     (let buf = take 23 (if pad \<noteq> 0 then fmt_0ld pad val else fmt_ld val);
          (n, f) = fprintf logfile (''$'' @ dec (length buf) @ CRLF @ buf @ CRLF)
      in if n \<le> 0 then (- 1, f) else (n, f))"

section \<open>Raw reading of the Raft log\<close>

text \<open>
  An element of a record that was read: \<^verbatim>\<open>len\<close> bytes at \<^verbatim>\<open>ptr\<close>, followed by two NUL bytes, so that
  the element read as a C string is \<open>c_str\<close> of its bytes. \<open>num_elements\<close> is the \<^verbatim>\<open>int\<close> field of
  \<^verbatim>\<open>RawLogEntry\<close>.
\<close>

record RawLogEntry =
  num_elements :: "32 word"
  elements :: "string list"

definition readEncodedLength :: "char FILE \<Rightarrow> char \<Rightarrow> ulong option \<times> char FILE" where
  "readEncodedLength f type =
     (case fgets 128 f of
        None \<Rightarrow> (None, f)
      | Some (buf, f') \<Rightarrow>
          (case buf of
             [] \<Rightarrow> (None, f')
           | c # cs \<Rightarrow>
               if c \<noteq> type then (None, f')
               else
                 let (length', eptr) = strtoul (c_str cs)
                 in if deref eptr \<noteq> CHR 0x0A \<and> deref eptr \<noteq> CHR 0x0D then (None, f')
                    else (Some length', f')))"

text \<open>
  The elements of a record. For each the source allocates \<^verbatim>\<open>len + 2\<close> bytes, reads as many and
  sets \<^verbatim>\<open>ptr[len]\<close> and \<^verbatim>\<open>ptr[len + 1]\<close> to NUL; when \<^verbatim>\<open>len + 2\<close> wraps around these two bytes are
  outside the allocation.
\<close>

fun read_elements :: "nat \<Rightarrow> char FILE \<Rightarrow> (string list option \<times> char FILE) option" where
  "read_elements 0 f = Some (Some [], f)"
| "read_elements (Suc n) f =
     (case readEncodedLength f (CHR ''$'') of
        (None, f) \<Rightarrow> Some (None, f)
      | (Some l, f) \<Rightarrow>
          let (bytes, f) = fread (unat (l + 2)) f
          in if length bytes \<noteq> unat (l + 2) then Some (None, f)
             else if unat l + 2 \<noteq> unat (l + 2) then None
             else
               do {
                 (r, f) \<leftarrow> read_elements n f;
                 Some (map_option (Cons (take (unat l) bytes)) r, f)
               })"

definition readRawLogEntry :: "char FILE \<Rightarrow> (RawLogEntry option \<times> char FILE) option" where
  "readRawLogEntry f =
     (case readEncodedLength f (CHR ''*'') of
        (None, f) \<Rightarrow> Some (None, f)
      | (Some n, f) \<Rightarrow>
          do {
            (r, f) \<leftarrow> read_elements (unat n) f;
            Some (map_option (\<lambda>els. \<lparr>num_elements = ucast n, elements = els\<rparr>) r, f)
          })"

section \<open>The log file and its index\<close>

text \<open>
  The index file holds one \<^verbatim>\<open>off64_t\<close> per slot; the byte offset \<^verbatim>\<open>sizeof(off64_t) * relidx\<close> is
  computed in unsigned arithmetic and passed as a \<^verbatim>\<open>long\<close>.
\<close>

definition idx_slot :: "64 word \<Rightarrow> int" where
  "idx_slot relidx = sint (8 * relidx) div 8"

definition updateIndex :: "RaftLog \<Rightarrow> raft_index_t \<Rightarrow> 64 word \<Rightarrow> int \<times> RaftLog" where
  "updateIndex log idx offset =
     (let relidx = idx - snapshot_last_idx log;
          (r, xf) = fseek (idxfile log) (idx_slot relidx)
      in if r < 0 then (- 1, log\<lparr>idxfile := xf\<rparr>)
         else
           let (w, xf) = fwrite 0 [offset] xf
           in if w \<noteq> 1 then (- 1, log\<lparr>idxfile := xf\<rparr>) else (0, log\<lparr>idxfile := xf\<rparr>))"

text \<open>
  \<^verbatim>\<open>prepareLog\<close> opens the log file for appending and an empty index file, and sets every field of
  the log to zero. \<open>disk\<close> is what the log file holds; the two lists are the faults of the streams.
  (\<^verbatim>\<open>fopen\<close> is taken to succeed here.)
\<close>

definition prepareLog :: "string \<Rightarrow> bool list \<Rightarrow> bool list \<Rightarrow> RaftLog" where
  "prepareLog disk log_faults idx_faults =
     \<lparr>dbid = [], num_entries = 0, snapshot_last_term = 0, snapshot_last_idx = 0, vote = 0,
      log_term = 0, index = 0, no_fsync = False,
      file' = \<lparr>contents = disk, pos = 0, append_mode = True, faults = log_faults\<rparr>,
      idxfile = \<lparr>contents = [], pos = 0, append_mode = False, faults = idx_faults\<rparr>\<rparr>"

definition writeLogHeader :: "char FILE \<Rightarrow> RaftLog \<Rightarrow> int \<times> char FILE" where
  "writeLogHeader logfile log =
     (let (n, f) = writeBegin logfile 7 in
      if n < 0 then (- 1, f) else
      let (n, f) = writeBuffer f ''RAFTLOG'' 7 in
      if n < 0 then (- 1, f) else
      let (n, f) = writeUnsignedInteger f RAFTLOG_VERSION 4 in
      if n < 0 then (- 1, f) else
      let (n, f) = writeBuffer f (dbid log) (length (dbid log)) in
      if n < 0 then (- 1, f) else
      let (n, f) = writeUnsignedInteger f (snapshot_last_term log) 20 in
      if n < 0 then (- 1, f) else
      let (n, f) = writeUnsignedInteger f (snapshot_last_idx log) 20 in
      if n < 0 then (- 1, f) else
      let (n, f) = writeUnsignedInteger f (log_term log) 20 in
      if n < 0 then (- 1, f) else
      let (n, f) = writeInteger f (scast (vote log)) 11 in
      if n < 0 then (- 1, f) else
      let (n, f) = writeEnd f (no_fsync log) in
      if n < 0 then (- 1, f) else (0, f))"

text \<open>
  The header is written over the start of the file through a second stream. \<open>None\<close> is the
  \<^verbatim>\<open>PANIC\<close> of the source when the file cannot be opened.
\<close>

definition updateLogHeader :: "RaftLog \<Rightarrow> (int \<times> RaftLog) option" where
  "updateLogHeader log =
     do {
       file \<leftarrow> reopen (file' log) False;
       let (ret, file) = writeLogHeader file log;
       file \<leftarrow> reopen file True;
       Some (ret, log\<lparr>file' := file\<rparr>)
     }"

text \<open>
  \<open>None\<close> is the \<^verbatim>\<open>NULL\<close> that \<^verbatim>\<open>RaftLogCreate\<close> returns when the header cannot be written. The source
  copies \<^verbatim>\<open>RAFT_DBID_LEN\<close> bytes of the identifier and ignores the results of the truncations.
\<close>

definition RaftLogCreate ::
  "string \<Rightarrow> bool list \<Rightarrow> bool list \<Rightarrow> string \<Rightarrow> raft_term_t \<Rightarrow> raft_index_t \<Rightarrow> RaftLog option" where
  "RaftLogCreate disk log_faults idx_faults dbid0 term idx =
     (let log = prepareLog disk log_faults idx_faults;
          log = log\<lparr>index := idx, snapshot_last_idx := idx, snapshot_last_term := term,
                    log_term := 1, vote := - 1, dbid := c_str (take RAFT_DBID_LEN dbid0)\<rparr>;
          (r, f) = ftruncate NUL (file' log) 0;
          (r, xf) = ftruncate 0 (idxfile log) 0;
          log = log\<lparr>file' := f, idxfile := xf\<rparr>;
          (r, f) = writeLogHeader (file' log) log
      in if r < 0 then None else Some (log\<lparr>file' := f\<rparr>))"

text \<open>
  Parsing an entry. \<open>None\<close> is an access to an element that the record does not have; the inner
  \<open>None\<close> is the \<^verbatim>\<open>NULL\<close> that the source returns for a record that is not an entry.
\<close>

definition parseRaftLogEntry :: "RawLogEntry \<Rightarrow> raft_entry option option" where
  "parseRaftLogEntry re =
     (if num_elements re \<noteq> 5 then Some None
      else
        do {
          e4 \<leftarrow> load (elements re) 4;
          e1 \<leftarrow> load (elements re) 1;
          let (t, eptr) = strtoul (c_str e1);
          if deref eptr \<noteq> NUL then Some None
          else
            do {
              e2 \<leftarrow> load (elements re) 2;
              let (i, eptr) = strtoul (c_str e2);
              if deref eptr \<noteq> NUL then Some None
              else
                do {
                  e3 \<leftarrow> load (elements re) 3;
                  let (ty, eptr) = strtoul (c_str e3);
                  if deref eptr \<noteq> NUL then Some None
                  else Some (Some \<lparr>term' = t, id' = ucast i, type' = ucast ty, data = e4\<rparr>)
                }
            }
        })"

definition handleHeader :: "RaftLog \<Rightarrow> RawLogEntry \<Rightarrow> (int \<times> RaftLog) option" where
  "handleHeader log re =
     (if num_elements re \<noteq> 7 then Some (- 1, log)
      else
        do {
          e0 \<leftarrow> load (elements re) 0;
          if c_str e0 \<noteq> ''RAFTLOG'' then Some (- 1, log)
          else
            do {
              e1 \<leftarrow> load (elements re) 1;
              let (ver, eptr) = strtoul (c_str e1);
              if deref eptr \<noteq> NUL \<or> ver \<noteq> RAFTLOG_VERSION then Some (- 1, log)
              else
                do {
                  e2 \<leftarrow> load (elements re) 2;
                  if length (c_str e2) > RAFT_DBID_LEN then Some (- 1, log)
                  else
                    do {
                      let log = log\<lparr>dbid := c_str e2\<rparr>;
                      e3 \<leftarrow> load (elements re) 3;
                      let (v, eptr) = strtoul (c_str e3);
                      let log = log\<lparr>snapshot_last_term := v\<rparr>;
                      if deref eptr \<noteq> NUL then Some (- 1, log)
                      else
                        do {
                          e4 \<leftarrow> load (elements re) 4;
                          let (v, eptr) = strtoul (c_str e4);
                          let log = log\<lparr>index := v, snapshot_last_idx := v\<rparr>;
                          if deref eptr \<noteq> NUL then Some (- 1, log)
                          else
                            do {
                              e5 \<leftarrow> load (elements re) 5;
                              let (v, eptr) = strtoul (c_str e5);
                              let log = log\<lparr>log_term := v\<rparr>;
                              if deref eptr \<noteq> NUL then Some (- 1, log)
                              else
                                do {
                                  e6 \<leftarrow> load (elements re) 6;
                                  let (v, eptr) = strtol (c_str e6);
                                  let log = log\<lparr>vote := ucast v\<rparr>;
                                  if deref eptr \<noteq> NUL then Some (- 1, log) else Some (0, log)
                                }
                            }
                        }
                    }
                }
            }
        })"

definition RaftLogReset :: "RaftLog \<Rightarrow> raft_index_t \<Rightarrow> raft_term_t \<Rightarrow> RRStatus \<times> RaftLog" where
  "RaftLogReset log0 idx term =
     (let log = log0\<lparr>index := idx, snapshot_last_idx := idx, snapshot_last_term := term\<rparr>;
          log = (if log_term log > term then log\<lparr>log_term := term, vote := - 1\<rparr> else log);
          (r, f) = ftruncate NUL (file' log) 0;
          log = log\<lparr>file' := f\<rparr>
      in if r < 0 then (RR_ERROR, log)
         else
           let (r, xf) = ftruncate 0 (idxfile log) 0;
               log = log\<lparr>idxfile := xf\<rparr>
           in if r < 0 then (RR_ERROR, log)
              else
                let (r, f) = writeLogHeader (file' log) log;
                    log = log\<lparr>file' := f\<rparr>
                in if r < 0 then (RR_ERROR, log) else (RR_OK, log))"

definition RaftLogWriteEntry :: "RaftLog \<Rightarrow> raft_entry \<Rightarrow> RRStatus \<times> RaftLog" where
  "RaftLogWriteEntry log entry =
     (let written = 0;
          (n, f) = writeBegin (file' log) 5 in
      if n < 0 then (RR_ERROR, log\<lparr>file' := f\<rparr>) else
      let written = written + nat n;
          (n, f) = writeBuffer f ''ENTRY'' 5 in
      if n < 0 then (RR_ERROR, log\<lparr>file' := f\<rparr>) else
      let written = written + nat n;
          (n, f) = writeUnsignedInteger f (term' entry) 0 in
      if n < 0 then (RR_ERROR, log\<lparr>file' := f\<rparr>) else
      let written = written + nat n;
          (n, f) = writeUnsignedInteger f (ucast (id' entry)) 0 in
      if n < 0 then (RR_ERROR, log\<lparr>file' := f\<rparr>) else
      let written = written + nat n;
          (n, f) = writeUnsignedInteger f (ucast (type' entry)) 0 in
      if n < 0 then (RR_ERROR, log\<lparr>file' := f\<rparr>) else
      let written = written + nat n;
          (n, f) = writeBuffer f (data entry) (data_len entry) in
      if n < 0 then (RR_ERROR, log\<lparr>file' := f\<rparr>) else
      let written = written + nat n;
          offset = word_of_nat (ftell f) - word_of_nat written;
          log = log\<lparr>file' := f, index := index log + 1\<rparr>;
          (r, log) = updateIndex log (index log) offset
      in if r < 0 then (RR_ERROR, log) else (RR_OK, log))"

definition RaftLogSync :: "RaftLog \<Rightarrow> RRStatus \<times> RaftLog" where
  "RaftLogSync log =
     (let (r, f) = writeEnd (file' log) (no_fsync log)
      in if r < 0 then (RR_ERROR, log\<lparr>file' := f\<rparr>) else (RR_OK, log\<lparr>file' := f\<rparr>))"

definition RaftLogAppend :: "RaftLog \<Rightarrow> raft_entry \<Rightarrow> RRStatus \<times> RaftLog" where
  "RaftLogAppend log0 entry =
     (let (st, log) = RaftLogWriteEntry log0 entry
      in if st \<noteq> RR_OK then (RR_ERROR, log)
         else
           let (r, f) = writeEnd (file' log) (no_fsync log);
               log = log\<lparr>file' := f\<rparr>
           in if r < 0 then (RR_ERROR, log)
              else (RR_OK, log\<lparr>num_entries := num_entries log + 1\<rparr>))"

text \<open>The result of \<open>seekEntry\<close> is an \<^verbatim>\<open>off64_t\<close>; 0 says that there is no such entry.\<close>

definition seekEntry :: "RaftLog \<Rightarrow> raft_index_t \<Rightarrow> 64 word \<times> RaftLog" where
  "seekEntry log idx =
     (if idx \<le> snapshot_last_idx log then (0, log)
      else if idx > snapshot_last_idx log + num_entries log then (0, log)
      else
        let relidx = idx - snapshot_last_idx log;
            (r, xf) = fseek (idxfile log) (idx_slot relidx);
            log = log\<lparr>idxfile := xf\<rparr>
        in if r < 0 then (0, log)
           else
             let (slots, xf) = fread 1 (idxfile log);
                 log = log\<lparr>idxfile := xf\<rparr>
             in (case slots of
                   [] \<Rightarrow> (0, log)
                 | offset # _ \<Rightarrow>
                     let (r, f) = fseek (file' log) (sint offset);
                         log = log\<lparr>file' := f\<rparr>
                     in if r < 0 then (0, log) else (offset, log)))"

definition RaftLogGet :: "RaftLog \<Rightarrow> raft_index_t \<Rightarrow> (raft_entry option \<times> RaftLog) option" where
  "RaftLogGet log0 idx =
     (let (offset, log) = seekEntry log0 idx
      in if sint offset \<le> 0 then Some (None, log)
         else
           do {
             (re, f) \<leftarrow> readRawLogEntry (file' log);
             let log = log\<lparr>file' := f\<rparr>;
             case re of
               None \<Rightarrow> Some (None, log)
             | Some re \<Rightarrow> do { e \<leftarrow> parseRaftLogEntry re; Some (e, log) }
           })"

definition RaftLogSetVote :: "RaftLog \<Rightarrow> raft_node_id_t \<Rightarrow> (RRStatus \<times> RaftLog) option" where
  "RaftLogSetVote log v =
     do {
       (r, log) \<leftarrow> updateLogHeader (log\<lparr>vote := v\<rparr>);
       Some (if r < 0 then RR_ERROR else RR_OK, log)
     }"

definition RaftLogSetTerm ::
  "RaftLog \<Rightarrow> raft_term_t \<Rightarrow> raft_node_id_t \<Rightarrow> (RRStatus \<times> RaftLog) option" where
  "RaftLogSetTerm log term v =
     do {
       (r, log) \<leftarrow> updateLogHeader (log\<lparr>log_term := term, vote := v\<rparr>);
       Some (if r < 0 then RR_ERROR else RR_OK, log)
     }"

definition RaftLogFirstIdx :: "RaftLog \<Rightarrow> raft_index_t" where
  "RaftLogFirstIdx log = snapshot_last_idx log"

definition RaftLogCurrentIdx :: "RaftLog \<Rightarrow> raft_index_t" where
  "RaftLogCurrentIdx log = index log"

definition RaftLogCount :: "RaftLog \<Rightarrow> raft_index_t" where
  "RaftLogCount log = num_entries log"

section \<open>Scanning the log file\<close>

text \<open>
  What is left of a file behind the position of a stream. Reading never changes the file, and
  reading a record moves the position forward; this is why the loops over the records end.
\<close>

definition span :: "'a FILE \<Rightarrow> nat" where
  "span f = length (contents f) - pos f"

lemma length_fgets_line: "length (fgets_line n s) \<le> length s"
  by (induction n s rule: fgets_line.induct) simp_all

lemma fgets_span:
  assumes "fgets n f = Some (line, g)"
  shows "contents g = contents f" and "span g < span f"
proof -
  define l where "l = fgets_line (n - 1) (drop (pos f) (contents f))"
  from assms have ne: "l \<noteq> []" and g: "g = f\<lparr>pos := pos f + length l\<rparr>"
    by (auto simp: fgets_def Let_def l_def split: if_splits)
  show "contents g = contents f" by (simp add: g)
  have "length l \<le> length (contents f) - pos f"
    using length_fgets_line [of "n - 1" "drop (pos f) (contents f)"] by (simp add: l_def)
  then show "span g < span f" using ne by (cases l) (simp_all add: span_def g)
qed

lemma fread_span:
  assumes "fread n f = (xs, g)"
  shows "contents g = contents f" and "span g \<le> span f"
  using assms by (auto simp: fread_def Let_def span_def)

lemma readEncodedLength_span:
  assumes "readEncodedLength f t = (r, g)"
  shows "contents g = contents f" and "span g \<le> span f" and "r \<noteq> None \<Longrightarrow> span g < span f"
proof -
  show "contents g = contents f"
    using assms
    by (auto simp: readEncodedLength_def split: option.splits list.splits if_splits prod.splits
        dest: fgets_span(1))
  show "span g \<le> span f"
    using assms
    by (auto simp: readEncodedLength_def split: option.splits list.splits if_splits prod.splits
        dest!: fgets_span(2))
  show "span g < span f" if "r \<noteq> None"
    using assms that
    by (auto simp: readEncodedLength_def split: option.splits list.splits if_splits prod.splits
        dest!: fgets_span(2))
qed

lemma read_elements_span:
  assumes "read_elements n f = Some (r, g)"
  shows "contents g = contents f \<and> span g \<le> span f"
  using assms
proof (induction n arbitrary: f r g)
  case 0
  then show ?case by simp
next
  case (Suc n)
  obtain l f1 where rl: "readEncodedLength f (CHR ''$'') = (l, f1)" by force
  note s1 = readEncodedLength_span(1,2) [OF rl]
  show ?case
  proof (cases l)
    case None
    with Suc.prems rl s1 show ?thesis by simp
  next
    case (Some len')
    obtain bytes f2 where fr: "fread (unat (len' + 2)) f1 = (bytes, f2)" by force
    note s2 = fread_span [OF fr]
    show ?thesis
    proof (cases "length bytes \<noteq> unat (len' + 2) \<or> unat len' + 2 \<noteq> unat (len' + 2)")
      case True
      with Suc.prems rl Some fr s1 s2 show ?thesis by (auto split: if_splits)
    next
      case False
      with Suc.prems rl Some fr obtain r' where "read_elements n f2 = Some (r', g)"
        by (auto split: Option.bind_splits)
      from Suc.IH [OF this] s1 s2 show ?thesis by simp
    qed
  qed
qed

lemma readRawLogEntry_span:
  assumes "readRawLogEntry f = Some (r, g)"
  shows "contents g = contents f" and "span g \<le> span f" and "r \<noteq> None \<Longrightarrow> span g < span f"
proof -
  obtain n f1 where rl: "readEncodedLength f (CHR ''*'') = (n, f1)" by force
  note s1 = readEncodedLength_span [OF rl]
  have "contents g = contents f \<and> span g \<le> span f \<and> (r \<noteq> None \<longrightarrow> span g < span f)"
  proof (cases n)
    case None
    with assms rl s1 show ?thesis by (simp add: readRawLogEntry_def)
  next
    case (Some k)
    with assms rl obtain r' where re: "read_elements (unat k) f1 = Some (r', g)"
      by (auto simp: readRawLogEntry_def split: Option.bind_splits)
    from read_elements_span [OF re] s1 Some show ?thesis by simp
  qed
  then show "contents g = contents f" and "span g \<le> span f"
    and "r \<noteq> None \<Longrightarrow> span g < span f"
    by simp_all
qed

text \<open>
  The loop of \<^verbatim>\<open>RaftLogDelete\<close> over the records from the position of the stream: the result is the
  status, the calls of the callback in their order, and the log. A record that is not an entry
  is skipped. The source reads the first element of every record, which a record without
  elements does not have.
\<close>

function delete_scan ::
  "RaftLog \<Rightarrow> raft_index_t \<Rightarrow> (RRStatus \<times> (raft_entry \<times> raft_index_t) list \<times> RaftLog) option" where
  "delete_scan log idx =
     do {
       (re, f) \<leftarrow> readRawLogEntry (file' log);
       let log1 = log\<lparr>file' := f\<rparr>;
       case re of
         None \<Rightarrow> Some (RR_OK, [], log1)
       | Some re \<Rightarrow>
           do {
             e0 \<leftarrow> load (elements re) 0;
             if strcasecmp_eq (c_str e0) ''ENTRY'' then
               do {
                 e \<leftarrow> parseRaftLogEntry re;
                 case e of
                   None \<Rightarrow> Some (RR_ERROR, [], log1)
                 | Some e \<Rightarrow>
                     do {
                       (ret, cbs, log2) \<leftarrow> delete_scan log1 (idx + 1);
                       Some (ret, (e, idx) # cbs, log2)
                     }
               }
             else delete_scan log1 idx
           }
     }"
  by pat_completeness auto
termination
proof (relation "measure (\<lambda>(log, idx). span (file' log))")
  show "wf (measure (\<lambda>(log, idx). span (file' log)))" by simp
qed (auto dest!: readRawLogEntry_span(3))

declare delete_scan.simps [simp del]

text \<open>
  The result of \<^verbatim>\<open>ftruncate\<close> is ignored; with a negative length it fails and leaves the file as it
  is.
\<close>

definition RaftLogDelete ::
  "RaftLog \<Rightarrow> raft_index_t \<Rightarrow> (RRStatus \<times> (raft_entry \<times> raft_index_t) list \<times> RaftLog) option" where
  "RaftLogDelete log0 from_idx =
     (let (offset, log) = seekEntry log0 from_idx
      in if offset = 0 then Some (RR_ERROR, [], log)
         else
           do {
             (ret, cbs, log) \<leftarrow> delete_scan log from_idx;
             let (r, f) = (if sint offset < 0 then (- 1, file' log)
                           else ftruncate NUL (file' log) (nat (sint offset)));
             let removed = index log - from_idx + 1;
             Some (ret, cbs,
               log\<lparr>file' := f, num_entries := num_entries log - removed, index := from_idx - 1\<rparr>)
           })"

text \<open>
  The loop of \<^verbatim>\<open>RaftLogLoadEntries\<close>: \<open>ret\<close> counts the entries and becomes \<open>- 1\<close> at a record that
  is not an entry. The result of \<^verbatim>\<open>updateIndex\<close> is ignored, and so is what the callback returns.
\<close>

function load_scan ::
  "RaftLog \<Rightarrow> int \<Rightarrow> (int \<times> (raft_entry \<times> raft_index_t) list \<times> RaftLog) option" where
  "load_scan log ret =
     do {
       let offset = ftell (file' log);
       (re, f) \<leftarrow> readRawLogEntry (file' log);
       let log1 = log\<lparr>file' := f\<rparr>;
       case re of
         None \<Rightarrow> Some (ret, [], log1)
       | Some re \<Rightarrow>
           if num_elements re = 0 then Some (ret, [], log1)
           else
             do {
               e0 \<leftarrow> load (elements re) 0;
               if strcasecmp_eq (c_str e0) ''ENTRY'' then
                 do {
                   e \<leftarrow> parseRaftLogEntry re;
                   case e of
                     None \<Rightarrow> Some (- 1, [], log1)
                   | Some e \<Rightarrow>
                       do {
                         let log2 = log1\<lparr>index := index log1 + 1\<rparr>;
                         let log3 = snd (updateIndex log2 (index log2) (word_of_nat offset));
                         (r, cbs, log4) \<leftarrow> load_scan log3 (ret + 1);
                         Some (r, (e, index log3) # cbs, log4)
                       }
                 }
               else Some (- 1, [], log1)
             }
     }"
  by pat_completeness auto
termination
proof (relation "measure (\<lambda>(log, ret). span (file' log))")
  show "wf (measure (\<lambda>(log, ret). span (file' log)))" by simp
qed (auto simp: updateIndex_def Let_def split: prod.splits if_splits
    dest!: readRawLogEntry_span(3))

declare load_scan.simps [simp del]

definition RaftLogLoadEntries ::
  "RaftLog \<Rightarrow> (int \<times> (raft_entry \<times> raft_index_t) list \<times> RaftLog) option" where
  "RaftLogLoadEntries log0 =
     (let (r, f) = fseek (file' log0) 0;
          log = log0\<lparr>file' := f\<rparr>
      in if r < 0 then Some (- 1, [], log)
         else
           do {
             let log = log\<lparr>log_term := 1, index := 0\<rparr>;
             (re, f) \<leftarrow> readRawLogEntry (file' log);
             let log = log\<lparr>file' := f\<rparr>;
             case re of
               None \<Rightarrow> Some (- 1, [], log)
             | Some re \<Rightarrow>
                 do {
                   (r, log) \<leftarrow> handleHeader log re;
                   if r < 0 then Some (- 1, [], log)
                   else
                     do {
                       (ret, cbs, log) \<leftarrow> load_scan log 0;
                       Some (ret, cbs,
                         if ret > 0 then log\<lparr>num_entries := word_of_int ret\<rparr> else log)
                     }
                 }
           })"

section \<open>Interface to the Raft library\<close>

text \<open>
  The part of \<^verbatim>\<open>RedisRaftCtx\<close> that the log implementation uses: its fields \<^verbatim>\<open>log\<close> and
  \<^verbatim>\<open>logcache\<close>. The cache holds the pointers of the entries that were appended; the model
  identifies an entry with its pointer.
\<close>

record RedisRaftCtx =
  rr_log :: RaftLog
  rr_logcache :: "raft_entry EntryCache"

definition ENTRY_CACHE_INIT_SIZE :: ulong where
  "ENTRY_CACHE_INIT_SIZE = 512"

definition logImplReset :: "RedisRaftCtx \<Rightarrow> raft_index_t \<Rightarrow> raft_term_t \<Rightarrow> RedisRaftCtx" where
  "logImplReset rr idx term =
     (let (st, log) = RaftLogReset (rr_log rr) idx term
      in rr\<lparr>rr_log := log, rr_logcache := EntryCacheNew ENTRY_CACHE_INIT_SIZE\<rparr>)"

definition logImplAppend ::
  "(nat \<Rightarrow> raft_entry option) \<Rightarrow> RedisRaftCtx \<Rightarrow> raft_entry \<Rightarrow> (int \<times> RedisRaftCtx) option" where
  "logImplAppend junk rr ety =
     (let (st, log) = RaftLogAppend (rr_log rr) ety
      in if st \<noteq> RR_OK then Some (- 1, rr\<lparr>rr_log := log\<rparr>)
         else
           do {
             cache \<leftarrow> EntryCacheAppend junk (rr_logcache rr) ety (index log);
             Some (0, rr\<lparr>rr_log := log, rr_logcache := cache\<rparr>)
           })"

definition logImplPoll :: "RedisRaftCtx \<Rightarrow> raft_index_t \<Rightarrow> (int \<times> RedisRaftCtx) option" where
  "logImplPoll rr first_idx =
     do {
       (deleted, cache) \<leftarrow> EntryCacheDeleteHead (rr_logcache rr) first_idx;
       Some (0, rr\<lparr>rr_logcache := cache\<rparr>)
     }"

definition logImplPop ::
  "RedisRaftCtx \<Rightarrow> raft_index_t \<Rightarrow>
   (int \<times> (raft_entry \<times> raft_index_t) list \<times> RedisRaftCtx) option" where
  "logImplPop rr from_idx =
     do {
       (deleted, cache) \<leftarrow> EntryCacheDeleteTail (rr_logcache rr) from_idx;
       (st, cbs, log) \<leftarrow> RaftLogDelete (rr_log rr) from_idx;
       Some (if st \<noteq> RR_OK then - 1 else 0, cbs, rr\<lparr>rr_log := log, rr_logcache := cache\<rparr>)
     }"

definition logImplGet ::
  "RedisRaftCtx \<Rightarrow> raft_index_t \<Rightarrow> (raft_entry option \<times> RedisRaftCtx) option" where
  "logImplGet rr idx =
     do {
       ety \<leftarrow> EntryCacheGet (rr_logcache rr) idx;
       case ety of
         Some e \<Rightarrow> Some (Some e, rr)
       | None \<Rightarrow>
           do {
             (e, log) \<leftarrow> RaftLogGet (rr_log rr) idx;
             Some (e, rr\<lparr>rr_log := log\<rparr>)
           }
     }"

definition logImplFirstIdx :: "RedisRaftCtx \<Rightarrow> raft_index_t" where
  "logImplFirstIdx rr = RaftLogFirstIdx (rr_log rr)"

definition logImplCurrentIdx :: "RedisRaftCtx \<Rightarrow> raft_index_t" where
  "logImplCurrentIdx rr = RaftLogCurrentIdx (rr_log rr)"

definition logImplCount :: "RedisRaftCtx \<Rightarrow> raft_index_t" where
  "logImplCount rr = RaftLogCount (rr_log rr)"

section \<open>The format of the log file\<close>

text \<open>
  The bytes of a record as the writing functions produce them: the number of elements after \<open>*\<close>,
  and for each element its length after \<open>$\<close> and its bytes, every line ended by CR LF.
\<close>

definition element_bytes :: "string \<Rightarrow> string" where
  "element_bytes s = ''$'' @ dec (length s) @ CRLF @ s @ CRLF"

definition record_bytes :: "string list \<Rightarrow> string" where
  "record_bytes els = ''*'' @ dec (length els) @ CRLF @ concat (map element_bytes els)"

definition entry_elements :: "raft_entry \<Rightarrow> string list" where
  "entry_elements e =
     [''ENTRY'', fmt_lu (term' e), fmt_lu (ucast (id' e)), fmt_lu (ucast (type' e)), data e]"

definition entry_bytes :: "raft_entry \<Rightarrow> string" where
  "entry_bytes e = record_bytes (entry_elements e)"

definition header_elements :: "RaftLog \<Rightarrow> string list" where
  "header_elements log =
     [''RAFTLOG'', fmt_0lu 4 RAFTLOG_VERSION, dbid log, fmt_0lu 20 (snapshot_last_term log),
      fmt_0lu 20 (snapshot_last_idx log), fmt_0lu 20 (log_term log),
      fmt_0ld 11 (scast (vote log))]"

definition header_bytes :: "RaftLog \<Rightarrow> string" where
  "header_bytes log = record_bytes (header_elements log)"

text \<open>A string that does not continue a run of digits.\<close>

definition stops :: "string \<Rightarrow> bool" where
  "stops rest \<longleftrightarrow> (case rest of [] \<Rightarrow> True | c # _ \<Rightarrow> \<not> isdigit c)"

section \<open>The log as a list of entries\<close>

text \<open>
  \<open>log_rep log es\<close>: the log holds the entries \<open>es\<close>, the first of them at index
  \<open>snapshot_last_idx + 1\<close>. The log file is the header followed by the records of the entries, slot
  \<open>k + 1\<close> of the index file is the offset of the record of entry \<open>k\<close>, \<open>index\<close> and \<open>num_entries\<close>
  count the entries, and the sizes are those of a real file: the offsets fit into an \<^verbatim>\<open>off64_t\<close> and
  the indices do not wrap.
\<close>

definition entry_offset :: "RaftLog \<Rightarrow> raft_entry list \<Rightarrow> nat \<Rightarrow> nat" where
  "entry_offset log es k =
     length (header_bytes log) + length (concat (map entry_bytes (take k es)))"

definition log_rep :: "RaftLog \<Rightarrow> raft_entry list \<Rightarrow> bool" where
  "log_rep log es \<longleftrightarrow>
     append_mode (file' log) \<and> \<not> append_mode (idxfile log) \<and>
     contents (file' log) = header_bytes log @ concat (map entry_bytes es) \<and>
     length (contents (file' log)) < 2 ^ 63 \<and>
     unat (snapshot_last_idx log) + length es < 2 ^ 64 \<and>
     index log = snapshot_last_idx log + word_of_nat (length es) \<and>
     num_entries log = word_of_nat (length es) \<and>
     length (dbid log) \<le> RAFT_DBID_LEN \<and>
     (es = [] \<or> length es < length (contents (idxfile log))) \<and>
     list_all (\<lambda>k. contents (idxfile log) ! Suc k = word_of_nat (entry_offset log es k))
       [0..<length es]"

text \<open>The entry of a represented log at an index of the live range.\<close>

definition entry_at :: "RaftLog \<Rightarrow> raft_entry list \<Rightarrow> raft_index_t \<Rightarrow> raft_entry" where
  "entry_at log es i = es ! (unat (i - snapshot_last_idx log) - 1)"

definition wrapped_full_cache :: "nat EntryCache" where
  "wrapped_full_cache = \<lparr>ptrs = [Some 20, Some 10], start = 1, len = 2, size' = 2, start_idx = 5\<rparr>"

definition wrapped_cache :: "nat EntryCache" where
  "wrapped_cache = \<lparr>ptrs = [Some 30, None, Some 10, Some 20], start = 2, len = 3, size' = 4, start_idx = 5\<rparr>"

text \<open>The log that \<open>RaftLogCreate\<close> makes on an empty disk when nothing fails, and an entry.\<close>

definition demo_dbid :: string where
  "demo_dbid = ''0123456789abcdef01234567890abcde''"

definition fresh_log :: RaftLog where
  "fresh_log =
     (case RaftLogCreate [] [] [] demo_dbid 0 0 of
        Some log \<Rightarrow> log
      | None \<Rightarrow> prepareLog [] [] [])"

definition demo_entry :: raft_entry where
  "demo_entry = \<lparr>term' = 1, id' = 100, type' = 2, data = ''x''\<rparr>"

definition one_entry_log :: RaftLog where
  "one_entry_log = snd (RaftLogAppend fresh_log demo_entry)"

text \<open>
  The context that \<^verbatim>\<open>logImplInit\<close> makes around that log, and the context after one append. Memory
  that \<^verbatim>\<open>RedisModule_Realloc\<close> adds would hold nothing.
\<close>

definition fresh_ctx :: RedisRaftCtx where
  "fresh_ctx = \<lparr>rr_log = fresh_log, rr_logcache = EntryCacheNew ENTRY_CACHE_INIT_SIZE\<rparr>"

definition one_entry_ctx :: RedisRaftCtx where
  "one_entry_ctx =
     (case logImplAppend (\<lambda>_. None) fresh_ctx demo_entry of
        Some (r, rr) \<Rightarrow> rr
      | None \<Rightarrow> fresh_ctx)"

text \<open>The log with one entry, when the next write to the index file is going to fail.\<close>

definition index_fault_log :: RaftLog where
  "index_fault_log = one_entry_log\<lparr>idxfile := (idxfile one_entry_log)\<lparr>faults := [True]\<rparr>\<rparr>"

text \<open>
  The log with one entry whose file has, behind that entry, a record with the tag of an entry
  and a term that is not a number.
\<close>

definition bad_record :: string where
  "bad_record = record_bytes [''ENTRY'', ''x'', ''1'', ''2'', ''d'']"

definition corrupt_log :: RaftLog where
  "corrupt_log =
     one_entry_log\<lparr>file' := (file' one_entry_log)\<lparr>contents :=
       contents (file' one_entry_log) @ bad_record\<rparr>\<rparr>"

section \<open>Properties of the entries cache\<close>

lemma unat_sizeof_ptr: "unat sizeof_ptr = 8"
  by (simp add: sizeof_ptr_def)

lemma unat_times_sizeof:
  assumes "unat (x::ulong) * 8 < 2 ^ 64"
  shows "unat (x * sizeof_ptr) div unat sizeof_ptr = unat x"
proof -
  have "unat (x * 8) = unat x * unat (8::ulong)"
    using assms by (subst unat_mult_lem [THEN iffD1]) simp_all
  then show ?thesis by (simp add: sizeof_ptr_def)
qed

lemma unat_double:
  assumes "unat (x::ulong) * 2 < 2 ^ 64"
  shows "unat (x * 2) = unat x * 2"
  using assms by (subst unat_mult_lem [THEN iffD1]) simp_all

lemma unat_ring_slot:
  assumes "unat (a::ulong) + unat b < 2 ^ 64"
  shows "unat ((a + b) mod c) = (unat a + unat b) mod unat c"
  using assms by (simp add: unat_mod unat_add_lem [THEN iffD1])

lemma grown_ring:
  fixes old :: "'a list" and junk :: "nat \<Rightarrow> 'a" and z :: 'a
  assumes len: "length old = S" and s: "s < S" and rel: "rel < S"
  defines "p1 \<equiv> map (\<lambda>i. if i < length old then old ! i else junk i) [0..<2 * S]"
  defines "p2 \<equiv> take S p1 @ take s (drop 0 p1) @ drop (S + s) p1"
  defines "p3 \<equiv> take 0 p2 @ replicate s z @ drop (0 + s) p2"
  shows "length p3 = 2 * S" and "p3 ! (s + rel) = old ! ((s + rel) mod S)"
    and "s = 0 \<Longrightarrow> p1 ! (s + rel) = old ! ((s + rel) mod S)"
proof -
  have l1: "length p1 = 2 * S" by (simp add: p1_def)
  have l2: "length p2 = 2 * S" using s by (simp add: p2_def l1)
  show "length p3 = 2 * S" using s by (simp add: p3_def l2)
  have p1_old: "p1 ! i = old ! i" if "i < S" for i
    using that len by (simp add: p1_def)
  have "p3 ! (s + rel) = p2 ! (s + rel)"
    using s by (simp add: p3_def nth_append l2)
  also have "\<dots> = old ! ((s + rel) mod S)"
  proof (cases "s + rel < S")
    case True
    then show ?thesis by (simp add: p2_def nth_append l1 p1_old)
  next
    case False
    then have m: "(s + rel) mod S = s + rel - S"
      using s rel by (simp add: mod_if)
    have lt: "s + rel - S < s" using False s rel by simp
    from False s rel lt have "p2 ! (s + rel) = p1 ! (s + rel - S)"
      by (simp add: p2_def nth_append l1)
    also have "\<dots> = old ! (s + rel - S)"
      using False s rel by (intro p1_old) simp
    finally show ?thesis by (simp add: m)
  qed
  finally show "p3 ! (s + rel) = old ! ((s + rel) mod S)" .
  show "p1 ! (s + rel) = old ! ((s + rel) mod S)" if "s = 0"
    using that rel by (simp add: p1_old)
qed

lemma ring_nat:
  assumes "ring_contract c"
  shows "length (ptrs c) = unat (size' c)" "unat (size' c) * 8 < 2 ^ 64"
    "unat (start c) < unat (size' c)" "unat (len c) \<le> unat (size' c)"
    "unat (start_idx c) + unat (len c) \<le> 2 ^ 64"
    "\<And>rel. rel < unat (len c) \<Longrightarrow>
       ptrs c ! ((unat (start c) + rel) mod unat (size' c)) \<noteq> None"
  using assms
  by (auto simp: ring_contract_def unat_sizeof_ptr word_less_nat_alt word_le_nat_alt
      list_all_iff)

lemma contract_nat:
  assumes "cache_contract c"
  shows "length (ptrs c) = unat (size' c)" "unat (size' c) * 8 < 2 ^ 64"
    "unat (start c) < unat (size' c)" "unat (len c) \<le> unat (size' c)"
    "len c = 0 \<longleftrightarrow> start_idx c = 0"
    "unat (start_idx c) + unat (len c) \<le> 2 ^ 64"
    "\<And>rel. rel < unat (len c) \<Longrightarrow>
       ptrs c ! ((unat (start c) + rel) mod unat (size' c)) \<noteq> None"
  using assms ring_nat [of c] by (auto simp: cache_contract_def)

lemma ring_slot_neq:
  fixes s :: nat
  assumes "i < j" and "j < i + S"
  shows "(s + i) mod S \<noteq> (s + j) mod S"
proof
  assume eq: "(s + i) mod S = (s + j) mod S"
  have "(s + j - (s + i)) mod S = 0"
    using assms by (intro mod_eq_dvd_iff_nat [THEN iffD1, THEN dvd_imp_mod_0]) (simp_all add: eq)
  moreover have "s + j - (s + i) = j - i" by simp
  moreover have "0 < j - i" "j - i < S" using assms by simp_all
  ultimately show False by simp
qed

lemma EntryCacheAppend_ring:
  assumes c: "cache_contract c" and idx: "idx \<noteq> 0"
    and nxt: "len c \<noteq> 0 \<Longrightarrow> idx = start_idx c + len c"
    and room: "len c = size' c \<Longrightarrow> unat (size' c) * 16 < 2 ^ 64"
  shows "\<exists>c'. EntryCacheAppend junk c e idx = Some c' \<and>
           start_idx c' = idx - len c \<and> len c' = len c + 1 \<and> start c' = start c \<and>
           size' c' = (if len c = size' c then size' c * 2 else size' c) \<and>
           length (ptrs c') = unat (size' c') \<and>
           unat (size' c') = (if len c = size' c then 2 * unat (size' c) else unat (size' c)) \<and>
           (\<forall>rel < unat (len c).
              ptrs c' ! ((unat (start c) + rel) mod unat (size' c')) =
              ptrs c ! ((unat (start c) + rel) mod unat (size' c))) \<and>
           ptrs c' ! ((unat (start c) + unat (len c)) mod unat (size' c')) = Some e"
proof -
  note n = contract_nat [OF c]
  define S where "S = unat (size' c)"
  define s where "s = unat (start c)"
  define n where "n = unat (len c)"
  have sS: "s < S" and nS: "n \<le> S" and S8: "S * 8 < 2 ^ 64" and lp: "length (ptrs c) = S"
    using n by (simp_all add: S_def s_def n_def)
  have S0: "size' c \<noteq> 0" using sS by (auto simp: S_def)
  define c1 where "c1 = (if start_idx c = 0 then c\<lparr>start_idx := idx\<rparr> else c)"
  have c1_fields: "ptrs c1 = ptrs c" "start c1 = start c" "len c1 = len c" "size' c1 = size' c"
    by (simp_all add: c1_def)
  have c1_idx: "start_idx c1 + len c1 = idx" "start_idx c1 = idx - len c"
    using n(5) nxt by (auto simp: c1_def)
  have slot: "unat ((start c + len c) mod size' c) = (s + n) mod S"
    using sS nS S8 by (simp add: unat_ring_slot s_def n_def S_def)
  show ?thesis
  proof (cases "len c = size' c")
    case False
    then have nlt: "n < S" using nS by (auto simp: n_def S_def word_unat_eq_iff)
    have ne: "(s + n) mod S \<noteq> (s + rel) mod S" if "rel < n" for rel
    proof
      assume eq: "(s + n) mod S = (s + rel) mod S"
      have "(s + n - (s + rel)) mod S = 0"
        using that by (intro mod_eq_dvd_iff_nat [THEN iffD1, THEN dvd_imp_mod_0]) (simp_all add: eq)
      moreover have "s + n - (s + rel) = n - rel" by simp
      moreover have "0 < n - rel" "n - rel < S" using that nlt by simp_all
      ultimately show False by simp
    qed
    have "EntryCacheAppend junk c e idx =
            Some (c1\<lparr>ptrs := (ptrs c)[(s + n) mod S := Some e], len := len c + 1\<rparr>)"
      using False S0 sS lp
      by (simp add: EntryCacheAppend_def Let_def c1_def [symmetric] c1_fields c1_idx assert'_def
          store_def slot)
    moreover have "(s + n) mod S < S" using sS by simp
    ultimately show ?thesis
      using False lp ne
      by (simp add: c1_fields c1_idx s_def [symmetric] n_def [symmetric] S_def [symmetric])
  next
    case True
    then have nS': "n = S" by (simp add: n_def S_def)
    have S16: "S * 16 < 2 ^ 64" using room True by (simp add: S_def)
    have dbl: "unat (size' c * 2) = 2 * S" using S16 by (simp add: unat_double S_def)
    have dbl0: "size' c * 2 \<noteq> 0" using dbl sS by (metis mult_is_0 not_less_zero unat_0 zero_neq_numeral)
    have bytes: "unat (size' c * 2 * sizeof_ptr) div unat sizeof_ptr = 2 * S"
      using S16 dbl by (subst unat_times_sizeof) simp_all
    have sbytes: "unat (start c * sizeof_ptr) div unat sizeof_ptr = s"
      using sS S8 by (subst unat_times_sizeof) (simp_all add: s_def)
    define p1 where "p1 = map (\<lambda>i. if i < length (ptrs c) then ptrs c ! i else junk i) [0..<2 * S]"
    define p2 where "p2 = take S p1 @ take s (drop 0 p1) @ drop (S + s) p1"
    define p3 where "p3 = take 0 p2 @ replicate s None @ drop (0 + s) p2"
    define pn where "pn = (if start c > 0 then p3 else p1)"
    note g = grown_ring(1,2) [OF lp sS, where junk = junk and z = None,
        folded p1_def p2_def p3_def]
      grown_ring(3) [OF lp sS, where junk = junk, folded p1_def]
    have l1: "length p1 = 2 * S" by (simp add: p1_def)
    have l2: "length p2 = 2 * S" using sS by (simp add: p2_def l1)
    have s0: "start c > 0 \<longleftrightarrow> s \<noteq> 0" by (simp add: s_def word_greater_zero_iff unat_eq_zero)
    have ln: "length pn = 2 * S" using g(1) l1 sS by (simp add: pn_def)
    have old: "pn ! (s + rel) = ptrs c ! ((s + rel) mod S)" if "rel < S" for rel
      using g(2,3) [OF that] by (auto simp: pn_def s0)
    have slot2: "unat ((start c + size' c) mod (size' c * 2)) = s + S"
      using sS S16 dbl by (simp add: unat_ring_slot s_def [symmetric] S_def [symmetric])
    have rl: "RedisModule_Realloc junk (ptrs c) (size' c * 2 * sizeof_ptr) = p1"
      by (simp add: RedisModule_Realloc_def bytes p1_def)
    have mm: "memmove p1 (unat (size' c)) 0 (start c * sizeof_ptr) = Some p2"
      using sS l1 by (simp add: memmove_def sbytes S_def [symmetric] p2_def)
    have ms: "memset p2 0 None (start c * sizeof_ptr) = Some p3"
      using sS l2 by (simp add: memset_def sbytes p3_def)
    have "EntryCacheAppend junk c e idx =
            Some (c1\<lparr>ptrs := pn[s + S := Some e], size' := size' c * 2, len := len c + 1\<rparr>)"
    proof (cases "start c > 0")
      case pos: True
      then show ?thesis
        using True dbl0 ln sS
        by (simp add: EntryCacheAppend_def Let_def c1_def [symmetric] c1_fields c1_idx
            assert'_def store_def slot2 rl mm ms pn_def)
    next
      case zero: False
      then show ?thesis
        using True dbl0 ln sS
        by (simp add: EntryCacheAppend_def Let_def c1_def [symmetric] c1_fields c1_idx
            assert'_def store_def slot2 rl pn_def)
    qed
    moreover have "(s + rel) mod (2 * S) = s + rel" if "rel \<le> S" for rel
      using that sS by simp
    ultimately show ?thesis
      using True ln sS old nS' dbl
      by (simp add: c1_fields c1_idx s_def [symmetric] n_def [symmetric] S_def [symmetric])
  qed
qed


lemma EntryCacheGet_hit:
  assumes "start_idx c \<le> k" and "k - start_idx c < len c"
    and "length (ptrs c) = unat (size' c)" and "size' c \<noteq> 0"
    and "unat (start c) + unat (len c) < 2 ^ 64"
  shows "EntryCacheGet c k =
           Some (ptrs c ! ((unat (start c) + unat (k - start_idx c)) mod unat (size' c)))"
proof -
  have rel: "unat (k - start_idx c) < unat (len c)"
    using assms(2) by (simp add: word_less_nat_alt)
  then have slot: "unat ((start c + (k - start_idx c)) mod size' c) =
      (unat (start c) + unat (k - start_idx c)) mod unat (size' c)"
    using assms(5) by (intro unat_ring_slot) simp
  have "0 < unat (size' c)" using assms(4) by (simp add: unat_gt_0)
  then have "(unat (start c) + unat (k - start_idx c)) mod unat (size' c) < length (ptrs c)"
    by (simp add: assms(3))
  moreover have "\<not> k < start_idx c" "\<not> len c \<le> k - start_idx c"
    using assms(1,2) by simp_all
  ultimately show ?thesis
    using assms(4)
    by (simp add: EntryCacheGet_def Let_def assert'_def load_def slot)
qed

lemma EntryCacheAppend_result:
  assumes c: "cache_contract c" and idx: "idx \<noteq> 0"
    and nxt: "len c \<noteq> 0 \<longrightarrow> idx = start_idx c + len c"
    and room: "len c = size' c \<longrightarrow> unat (size' c) * 16 < 2 ^ 64"
  shows "\<exists>c'. EntryCacheAppend junk c e idx = Some c' \<and> cache_contract c' \<and>
           (\<forall>k. cached c k \<longrightarrow> EntryCacheGet c' k = EntryCacheGet c k) \<and>
           EntryCacheGet c' idx = Some (Some e)"
proof -
  note n = contract_nat [OF c]
  define S where "S = unat (size' c)"
  define s where "s = unat (start c)"
  define n where "n = unat (len c)"
  have sS: "s < S" and nS: "n \<le> S" and S8: "S * 8 < 2 ^ 64" and lp: "length (ptrs c) = S"
    using n by (simp_all add: S_def s_def n_def)
  from EntryCacheAppend_ring [of c idx junk e] c idx nxt room
  obtain c' where app: "EntryCacheAppend junk c e idx = Some c'"
    and sidx: "start_idx c' = idx - len c" and ln: "len c' = len c + 1"
    and st: "start c' = start c"
    and lp': "length (ptrs c') = unat (size' c')"
    and S': "unat (size' c') = (if len c = size' c then 2 * S else S)"
    and old: "\<And>rel. rel < n \<Longrightarrow>
                ptrs c' ! ((s + rel) mod unat (size' c')) = ptrs c ! ((s + rel) mod S)"
    and new: "ptrs c' ! ((s + n) mod unat (size' c')) = Some e"
    unfolding S_def s_def n_def by blast
  have S16: "unat (size' c') * 8 < 2 ^ 64"
    using room S8 by (auto simp: S' S_def)
  have n1S': "n + 1 \<le> unat (size' c')"
  proof (cases "len c = size' c")
    case True then show ?thesis using sS nS by (simp add: S')
  next
    case False
    then have "n < S" using nS by (auto simp: n_def S_def word_unat_eq_iff)
    with False show ?thesis by (simp add: S')
  qed
  have un1: "unat (len c + 1) = n + 1"
    using n1S' S16 by (simp add: unat_add_lem [THEN iffD1] n_def)
  have sS': "s < unat (size' c')" using sS by (simp add: S')
  have S0': "size' c' \<noteq> 0" using sS' by auto
  have uidx: "unat idx = unat (idx - len c) + n"
  proof (cases "len c = 0")
    case True then show ?thesis by (simp add: n_def)
  next
    case False
    then have i: "idx = start_idx c + len c" using nxt by simp
    have "unat (start_idx c) + n \<noteq> 2 ^ 64"
    proof
      assume "unat (start_idx c) + n = 2 ^ 64"
      then have "unat (start_idx c + len c) = 0"
        by (simp add: unat_word_ariths n_def)
      then show False using idx i by (simp add: unat_eq_zero)
    qed
    then have "unat (start_idx c) + n < 2 ^ 64" using n(6) by (simp add: n_def)
    then show ?thesis by (simp add: i unat_add_lem [THEN iffD1] n_def)
  qed
  have anchored: "idx - len c \<noteq> 0"
  proof (cases "len c = 0")
    case True then show ?thesis using idx by simp
  next
    case False
    then show ?thesis using nxt n(5) by simp
  qed
  have held: "ptrs c' ! ((s + rel) mod unat (size' c')) \<noteq> None" if "rel < n + 1" for rel
  proof (cases "rel < n")
    case True
    then show ?thesis using old [OF True] n(7) [of rel] by (simp add: s_def n_def S_def)
  next
    case False
    then have "rel = n" using that by simp
    then show ?thesis by (simp add: new)
  qed
  have ub: "unat idx < 2 ^ 64" using unsigned_less [of idx, where ?'a = nat] by simp
  have c': "cache_contract c'"
    unfolding cache_contract_def ring_contract_def
    using lp' S16 sS' n1S' anchored uidx held ub
    by (simp add: unat_sizeof_ptr word_less_nat_alt word_le_nat_alt ln un1 st sidx list_all_iff
        s_def [symmetric] unat_eq_zero [symmetric] del: unat_eq_0)
  have sum': "unat (start c') + unat (len c') < 2 ^ 64"
    using sS' n1S' S16 by (simp add: st ln un1 s_def [symmetric])
  have keep: "EntryCacheGet c' k = EntryCacheGet c k" if k: "cached c k" for k
  proof -
    from k have k1: "start_idx c \<le> k" and k2: "k - start_idx c < len c"
      by (simp_all add: cached_def)
    from k2 have ne: "len c \<noteq> 0" by auto
    then have same: "start_idx c' = start_idx c" using nxt by (simp add: sidx)
    have r: "unat (k - start_idx c) < n" using k2 by (simp add: word_less_nat_alt n_def)
    then have k2': "k - start_idx c' < len c'"
      by (simp add: same ln word_less_nat_alt un1 n_def)
    have "EntryCacheGet c' k =
            Some (ptrs c' ! ((s + unat (k - start_idx c)) mod unat (size' c')))"
      using EntryCacheGet_hit [of c' k] k1 k2' lp' S0' sum' by (simp add: same st s_def)
    moreover have "EntryCacheGet c k = Some (ptrs c ! ((s + unat (k - start_idx c)) mod S))"
      using EntryCacheGet_hit [of c k] k1 k2 lp sS nS S8
      by (simp add: s_def S_def n_def [symmetric] unat_eq_zero [symmetric] del: unat_eq_0)
    ultimately show ?thesis using old [OF r] by simp
  qed
  have le: "start_idx c' \<le> idx"
    using uidx by (simp add: sidx word_le_nat_alt)
  have rel: "idx - start_idx c' = len c" by (simp add: sidx)
  have "EntryCacheGet c' idx = Some (ptrs c' ! ((s + n) mod unat (size' c')))"
    using EntryCacheGet_hit [of c' idx] le lp' S0' sum'
    by (simp add: rel ln st s_def n_def word_less_nat_alt un1 [unfolded n_def])
  then have "EntryCacheGet c' idx = Some (Some e)" by (simp add: new)
  with app c' keep show ?thesis by blast
qed



text \<open>
  Claim C7. For a cache that satisfies the cache contract, appending the next index
  (\<open>start_idx + len\<close> when the cache holds entries, any log index when it is empty) succeeds
  and preserves the contract, also when \<open>len = size'\<close> and the array is doubled with the wrapped
  region moved behind the old end (the doubled array must fit into the address space): every
  index cached before is answered by \<open>EntryCacheGet\<close> as before, and the new index is answered
  with the appended entry.
\<close>

theorem EntryCacheAppend_preserves_contract:
  assumes c: "cache_contract c" and idx: "idx \<noteq> 0"
    and nxt: "len c \<noteq> 0 \<longrightarrow> idx = start_idx c + len c"
    and room: "len c = size' c \<longrightarrow> unat (size' c) * 16 < 2 ^ 64"
  shows "\<exists>c'. EntryCacheAppend junk c e idx = Some c' \<and> cache_contract c' \<and>
           (\<forall>k. cached c k \<longrightarrow> EntryCacheGet c' k = EntryCacheGet c k) \<and>
           EntryCacheGet c' idx = Some (Some e)"
proof -
  from EntryCacheAppend_result [OF c idx nxt room, of junk e] obtain c'
    where app: "EntryCacheAppend junk c e idx = Some c'"
      and rest: "cache_contract c'"
        "\<forall>k. cached c k \<longrightarrow> EntryCacheGet c' k = EntryCacheGet c k"
        "EntryCacheGet c' idx = Some (Some e)"
    by blast
  show ?thesis
  proof (intro exI conjI)
    show "EntryCacheAppend junk c e idx = Some c'" by (rule app)
  qed (use rest in blast)+
qed

text \<open>
  The theorem at a full ring of two slots whose logical sequence wraps (\<open>start = 1\<close>), so that
  the append doubles the array and relocates slot 0.
\<close>

theorem EntryCacheAppend_preserves_contract_witness:
  "cache_contract wrapped_full_cache \<and> len wrapped_full_cache = size' wrapped_full_cache \<and>
   0 < start wrapped_full_cache \<and>
   (\<exists>c'. EntryCacheAppend (\<lambda>i. Some i) wrapped_full_cache 30 7 = Some c' \<and> cache_contract c' \<and>
      (\<forall>k. cached wrapped_full_cache k \<longrightarrow> EntryCacheGet c' k = EntryCacheGet wrapped_full_cache k) \<and>
      EntryCacheGet c' 7 = Some (Some 30))"
proof -
  have u: "[0..<2] = [0, Suc 0]" by (simp add: upt_conv_Cons)
  have c: "cache_contract wrapped_full_cache"
    by (simp add: cache_contract_def ring_contract_def wrapped_full_cache_def sizeof_ptr_def u)
  have f: "len wrapped_full_cache = 2" "size' wrapped_full_cache = 2"
    "start wrapped_full_cache = 1" "start_idx wrapped_full_cache = 5"
    by (simp_all add: wrapped_full_cache_def)
  have h1: "(7::raft_index_t) \<noteq> 0" by simp
  have h2: "len wrapped_full_cache \<noteq> 0 \<longrightarrow> 7 = start_idx wrapped_full_cache + len wrapped_full_cache"
    by (simp add: f)
  have h3: "len wrapped_full_cache = size' wrapped_full_cache \<longrightarrow>
      unat (size' wrapped_full_cache) * 16 < 2 ^ 64"
    by (simp add: f)
  have g: "len wrapped_full_cache = size' wrapped_full_cache" "0 < start wrapped_full_cache"
    by (simp_all add: f)
  from c g EntryCacheAppend_preserves_contract [OF c h1 h2 h3, of "\<lambda>i. Some i" 30]
  show ?thesis by blast
qed

lemma evict_head_step:
  assumes r: "ring_contract c" and ne: "len c \<noteq> 0" and nw: "unat (start_idx c) + 1 < 2 ^ 64"
  defines "c1 \<equiv> c\<lparr>start_idx := start_idx c + 1, ptrs := (ptrs c)[unat (start c) := None],
                    start := (if start c + 1 \<ge> size' c then 0 else start c + 1),
                    len := len c - 1\<rparr>"
  shows "store (ptrs c) (unat (start c)) None = Some ((ptrs c)[unat (start c) := None])"
    and "ring_contract c1"
    and "\<And>k. cached c k \<Longrightarrow> k \<noteq> start_idx c \<Longrightarrow>
           cached c1 k \<and> EntryCacheGet c1 k = EntryCacheGet c k"
proof -
  note n = ring_nat [OF r]
  define S where "S = unat (size' c)"
  define s where "s = unat (start c)"
  define n where "n = unat (len c)"
  have sS: "s < S" and nS: "n \<le> S" and S8: "S * 8 < 2 ^ 64" and lp: "length (ptrs c) = S"
    using n by (simp_all add: S_def s_def n_def)
  have n0: "0 < n" using ne by (simp add: n_def unat_gt_0)
  show "store (ptrs c) (unat (start c)) None = Some ((ptrs c)[unat (start c) := None])"
    using sS lp by (simp add: store_def s_def)
  have us1: "unat (start c + 1) = s + 1"
    using sS S8 by (simp add: unat_add_lem [THEN iffD1] s_def)
  have st1: "unat (start c1) = (s + 1) mod S"
    using sS by (auto simp: c1_def word_le_nat_alt us1 S_def [symmetric] mod_if)
  have ln1: "unat (len c1) = n - 1"
    using ne by (simp add: c1_def unat_minus_one n_def)
  have si1: "unat (start_idx c1) = unat (start_idx c) + 1"
    using nw by (simp add: c1_def unat_add_lem [THEN iffD1])
  have f1: "size' c1 = size' c" "ptrs c1 = (ptrs c)[s := None]"
    by (simp_all add: c1_def s_def)
  have slot: "ptrs c1 ! (((s + 1) mod S + rel) mod S) = ptrs c ! ((s + (rel + 1)) mod S)"
    if "rel < n - 1" for rel
  proof -
    have "((s + 1) mod S + rel) mod S = (s + (rel + 1)) mod S"
      by (simp add: mod_add_left_eq add.assoc)
    moreover have "(s + 0) mod S \<noteq> (s + (rel + 1)) mod S"
      using that nS by (intro ring_slot_neq) simp_all
    ultimately show ?thesis using sS by (simp add: f1)
  qed
  have held: "ptrs c1 ! ((unat (start c1) + rel) mod unat (size' c1)) \<noteq> None"
    if "rel < unat (len c1)" for rel
  proof -
    from that have rel: "rel < n - 1" by (simp add: ln1)
    then have "rel + 1 < unat (len c)" using n0 by (simp add: n_def)
    from n(6) [OF this] slot [OF rel] show ?thesis
      by (simp add: st1 f1 S_def [symmetric] s_def [symmetric])
  qed
  have b1: "length (ptrs c1) = unat (size' c1)" "unat (size' c1) * unat sizeof_ptr < 2 ^ 64"
    "start c1 < size' c1" "len c1 \<le> size' c1" "unat (start_idx c1) + unat (len c1) \<le> 2 ^ 64"
    using lp S8 sS nS n(5) n0
    by (simp_all add: f1 st1 ln1 si1 word_less_nat_alt word_le_nat_alt unat_sizeof_ptr
        S_def [symmetric] n_def [symmetric])
  show r1: "ring_contract c1"
    unfolding ring_contract_def using b1 held by (simp add: list_all_iff)
  show "cached c1 k \<and> EntryCacheGet c1 k = EntryCacheGet c k"
    if k: "cached c k" and kne: "k \<noteq> start_idx c" for k
  proof -
    define r where "r = unat (k - start_idx c)"
    from k have k1: "start_idx c \<le> k" and k2: "k - start_idx c < len c"
      by (simp_all add: cached_def)
    have rn: "r < n" using k2 by (simp add: r_def n_def word_less_nat_alt)
    have uk: "unat k = unat (start_idx c) + r"
      using k1 by (simp add: r_def unat_sub word_le_nat_alt)
    have r0: "0 < r" using kne uk by (cases "r = 0") (simp_all add: word_unat_eq_iff)
    have le1: "start_idx c1 \<le> k" using uk r0 by (simp add: word_le_nat_alt si1)
    have ur1: "unat (k - start_idx c1) = r - 1"
      using le1 uk by (simp add: unat_sub si1 word_le_nat_alt)
    have lt1: "k - start_idx c1 < len c1"
      using rn r0 by (simp add: word_less_nat_alt ur1 ln1)
    have S0: "size' c \<noteq> 0" using sS by (auto simp: S_def)
    have "(s + 1) mod S < S" using sS by simp
    then have sm: "(s + 1) mod S + (n - 1) < 2 ^ 64" using nS S8 by simp
    have "EntryCacheGet c1 k = Some (ptrs c1 ! (((s + 1) mod S + (r - 1)) mod S))"
      using EntryCacheGet_hit [of c1 k] le1 lt1 lp S0 sm
      by (simp add: f1 st1 ln1 ur1 S_def [symmetric])
    also have "\<dots> = Some (ptrs c ! ((s + r) mod S))"
      using slot [of "r - 1"] rn r0 by simp
    also have "\<dots> = EntryCacheGet c k"
      using EntryCacheGet_hit [of c k] k1 k2 lp S0 sS nS S8
      by (simp add: r_def s_def S_def n_def [symmetric])
    finally show ?thesis using le1 lt1 by (simp add: cached_def)
  qed
qed


lemma word_min_pred:
  fixes a b :: "'a::len word"
  assumes "a \<noteq> 0" and "b \<noteq> 0"
  shows "min a b = min (a - 1) (b - 1) + 1"
proof -
  have "0 < unat a" "0 < unat b" using assms by (simp_all add: unat_gt_0)
  then have "a - 1 \<le> b - 1 \<longleftrightarrow> a \<le> b"
    using assms by (simp add: word_le_nat_alt unat_minus_one) linarith
  then show ?thesis by (simp add: min_def)
qed

lemma DeleteHead_loop_correct:
  assumes "ring_contract c" and "start_idx c \<le> f"
  shows "\<exists>c'. DeleteHead_loop f c d = Some (d + min (f - start_idx c) (len c), c') \<and>
           ring_contract c' \<and>
           start_idx c' = start_idx c + min (f - start_idx c) (len c) \<and>
           len c' = len c - min (f - start_idx c) (len c) \<and>
           (\<forall>k. cached c k \<and> f \<le> k \<longrightarrow> cached c' k \<and> EntryCacheGet c' k = EntryCacheGet c k)"
  using assms
proof (induction f c d rule: DeleteHead_loop.induct)
  case (1 f c d)
  show ?case
  proof (cases "start_idx c < f \<and> 0 < len c")
    case False
    with "1.prems"(2) have "min (f - start_idx c) (len c) = 0"
      by (auto simp: min_def word_greater_zero_iff)
    moreover have "DeleteHead_loop f c d = Some (d, c)"
      by (subst DeleteHead_loop.simps) (simp only: False if_False)
    ultimately show ?thesis
      using "1.prems"(1) by simp
  next
    case True
    define c1 where "c1 = c\<lparr>start_idx := start_idx c + 1, ptrs := (ptrs c)[unat (start c) := None],
                    start := (if start c + 1 \<ge> size' c then 0 else start c + 1),
                    len := len c - 1\<rparr>"
    from True have ne: "len c \<noteq> 0" and lt: "start_idx c < f" by auto
    have "unat (start_idx c) < unat f" using lt by (simp add: word_less_nat_alt)
    moreover have "unat f < 2 ^ 64" using unsigned_less [of f, where ?'a = nat] by simp
    ultimately have nw: "unat (start_idx c) + 1 < 2 ^ 64" by simp
    note step = evict_head_step [OF "1.prems"(1) ne nw, folded c1_def]
    have le1: "start_idx c1 \<le> f"
      using lt nw by (simp add: c1_def word_le_nat_alt word_less_nat_alt unat_add_lem [THEN iffD1])
    from "1.IH" [OF True step(1) refl refl, folded c1_def, OF step(2) le1]
    obtain c' where loop: "DeleteHead_loop f c1 (d + 1) =
          Some (d + 1 + min (f - start_idx c1) (len c1), c')"
      and r': "ring_contract c'"
      and si': "start_idx c' = start_idx c1 + min (f - start_idx c1) (len c1)"
      and ln': "len c' = len c1 - min (f - start_idx c1) (len c1)"
      and keep': "\<And>k. cached c1 k \<Longrightarrow> f \<le> k \<Longrightarrow>
                    cached c' k \<and> EntryCacheGet c' k = EntryCacheGet c1 k"
      by blast
    have fne: "f - start_idx c \<noteq> 0" using lt by auto
    have m: "min (f - start_idx c) (len c) = min (f - start_idx c1) (len c1) + 1"
      using word_min_pred [OF fne ne] by (simp add: c1_def diff_diff_eq)
    have unf: "DeleteHead_loop f c d = DeleteHead_loop f c1 (d + 1)"
      using True step(1) by (subst DeleteHead_loop.simps) (simp add: c1_def Let_def)
    have "d + 1 + min (f - start_idx c1) (len c1) = d + min (f - start_idx c) (len c)"
      by (simp add: m)
    then have res: "DeleteHead_loop f c d = Some (d + min (f - start_idx c) (len c), c')"
      by (simp only: unf loop)
    have keep: "cached c' k \<and> EntryCacheGet c' k = EntryCacheGet c k"
      if k: "cached c k" and fk: "f \<le> k" for k
    proof -
      have "k \<noteq> start_idx c" using lt fk by auto
      from step(3) [OF k this] keep' [of k] fk show ?thesis by simp
    qed
    have "start_idx c' = start_idx c + min (f - start_idx c) (len c)"
      by (simp add: si' m) (simp add: c1_def)
    moreover have "len c' = len c - min (f - start_idx c) (len c)"
      by (simp add: ln' m) (simp add: c1_def)
    ultimately show ?thesis using res r' keep by blast
  qed
qed


lemma EntryCacheDeleteHead_result:
  assumes c: "cache_contract c" and le: "start_idx c \<le> first_idx"
  shows "\<exists>c'. EntryCacheDeleteHead c first_idx =
                 Some (min (first_idx - start_idx c) (len c), c') \<and>
           min (first_idx - start_idx c) (len c) \<noteq> - 1 \<and>
           cache_contract c' \<and>
           len c' = len c - min (first_idx - start_idx c) (len c) \<and>
           (\<forall>k. cached c k \<and> first_idx \<le> k \<longrightarrow> EntryCacheGet c' k = EntryCacheGet c k) \<and>
           (\<forall>k. k < first_idx \<longrightarrow> EntryCacheGet c' k = Some None) \<and>
           (len c \<le> first_idx - start_idx c \<longrightarrow> len c' = 0 \<and> start_idx c' = 0)"
proof -
  define m where "m = min (first_idx - start_idx c) (len c)"
  from c have r: "ring_contract c" and anch: "len c = 0 \<longleftrightarrow> start_idx c = 0"
    by (simp_all add: cache_contract_def)
  note n = ring_nat [OF r]
  from DeleteHead_loop_correct [OF r le, of 0, folded m_def]
  obtain c2 where loop: "DeleteHead_loop first_idx c 0 = Some (m, c2)"
    and r2: "ring_contract c2" and si2: "start_idx c2 = start_idx c + m"
    and ln2: "len c2 = len c - m"
    and keep2: "\<And>k. cached c k \<Longrightarrow> first_idx \<le> k \<Longrightarrow>
                  cached c2 k \<and> EntryCacheGet c2 k = EntryCacheGet c k"
    by auto
  define c' where "c' = (if len c2 = 0 then c2\<lparr>start_idx := 0\<rparr> else c2)"
  have res: "EntryCacheDeleteHead c first_idx = Some (m, c')"
    using le loop by (simp add: EntryCacheDeleteHead_def c'_def Let_def not_less [symmetric])
  have "unat m \<le> unat (len c)" by (simp add: m_def word_le_nat_alt [symmetric])
  then have "unat m < 2 ^ 61" using n(2,4) by simp
  moreover have "unat (- 1 :: 64 word) = 2 ^ 64 - 1"
    by (simp add: unsigned_minus_1_eq_mask mask_eq_exp_minus_1)
  ultimately have m1: "m \<noteq> - 1" by auto
  have live: "m = first_idx - start_idx c \<and> first_idx \<noteq> 0" if "len c2 \<noteq> 0"
  proof -
    from that have "m \<noteq> len c" by (simp add: ln2)
    then have "m = first_idx - start_idx c" by (auto simp: m_def min_def)
    moreover have "len c \<noteq> 0" using that by (auto simp: ln2 m_def)
    then have "start_idx c \<noteq> 0" using anch by simp
    then have "first_idx \<noteq> 0" using le by auto
    ultimately show ?thesis by simp
  qed
  have r': "ring_contract c'"
    using r2 by (auto simp: c'_def ring_contract_def)
  have c'': "cache_contract c'"
    using r' live by (auto simp: cache_contract_def c'_def si2)
  have ln': "len c' = len c - m" by (simp add: c'_def ln2)
  have keep: "EntryCacheGet c' k = EntryCacheGet c k" if "cached c k" "first_idx \<le> k" for k
  proof -
    from keep2 [OF that] have "cached c2 k" and g: "EntryCacheGet c2 k = EntryCacheGet c k"
      by simp_all
    then have "len c2 \<noteq> 0" by (auto simp: cached_def)
    then show ?thesis using g by (simp add: c'_def)
  qed
  have miss: "EntryCacheGet c' k = Some None" if "k < first_idx" for k
  proof (cases "len c2 = 0")
    case True
    then show ?thesis by (simp add: EntryCacheGet_def c'_def Let_def)
  next
    case False
    with live have "start_idx c' = first_idx" by (simp add: c'_def si2)
    then show ?thesis using that by (simp add: EntryCacheGet_def)
  qed
  have empt: "len c' = 0 \<and> start_idx c' = 0" if "len c \<le> first_idx - start_idx c"
  proof -
    from that have "m = len c" by (simp add: m_def min_def)
    then show ?thesis by (simp add: c'_def ln2)
  qed
  from res m1 c'' ln' keep miss empt show ?thesis
    unfolding m_def by blast
qed


text \<open>
  Claim C10. For a cache that satisfies the cache contract and every \<open>first_idx \<ge> start_idx\<close>,
  \<open>EntryCacheDeleteHead\<close> does not return the error sentinel \<open>- 1\<close>: it returns
  \<open>min (first_idx - start_idx) len\<close>, which is the number of entries it evicts. The entries at
  \<open>first_idx\<close> and above stay retrievable, every index below \<open>first_idx\<close> misses afterwards, and
  a \<open>first_idx\<close> beyond the last cached index leaves the cache empty with \<open>start_idx = 0\<close>.
\<close>

theorem EntryCacheDeleteHead_evicts:
  assumes c: "cache_contract c" and le: "start_idx c \<le> first_idx"
  shows "\<exists>c'. EntryCacheDeleteHead c first_idx =
                 Some (min (first_idx - start_idx c) (len c), c') \<and>
           min (first_idx - start_idx c) (len c) \<noteq> - 1 \<and>
           cache_contract c' \<and>
           len c' = len c - min (first_idx - start_idx c) (len c) \<and>
           (\<forall>k. cached c k \<and> first_idx \<le> k \<longrightarrow> EntryCacheGet c' k = EntryCacheGet c k) \<and>
           (\<forall>k. k < first_idx \<longrightarrow> EntryCacheGet c' k = Some None) \<and>
           (len c \<le> first_idx - start_idx c \<longrightarrow> len c' = 0 \<and> start_idx c' = 0)"
proof -
  from EntryCacheDeleteHead_result [OF c le] obtain c'
    where res: "EntryCacheDeleteHead c first_idx =
        Some (min (first_idx - start_idx c) (len c), c')"
      and rest: "min (first_idx - start_idx c) (len c) \<noteq> - 1" "cache_contract c'"
        "len c' = len c - min (first_idx - start_idx c) (len c)"
        "\<forall>k. cached c k \<and> first_idx \<le> k \<longrightarrow> EntryCacheGet c' k = EntryCacheGet c k"
        "\<forall>k. k < first_idx \<longrightarrow> EntryCacheGet c' k = Some None"
        "len c \<le> first_idx - start_idx c \<longrightarrow> len c' = 0 \<and> start_idx c' = 0"
    by blast
  show ?thesis
  proof (intro exI conjI)
    show "EntryCacheDeleteHead c first_idx = Some (min (first_idx - start_idx c) (len c), c')"
      by (rule res)
  qed (use rest in blast)+
qed

text \<open>The theorem at a ring that wraps, with \<open>first_idx\<close> beyond the last cached index.\<close>

theorem EntryCacheDeleteHead_evicts_witness:
  "cache_contract wrapped_cache \<and> start_idx wrapped_cache \<le> 9 \<and>
   (\<exists>c'. EntryCacheDeleteHead wrapped_cache 9 = Some (3, c') \<and> len c' = 0 \<and> start_idx c' = 0)"
proof -
  have u: "[0..<3] = [0, Suc 0, Suc (Suc 0)]" by (simp add: upt_conv_Cons)
  have c: "cache_contract wrapped_cache"
    by (simp add: cache_contract_def ring_contract_def wrapped_cache_def sizeof_ptr_def u)
  have f: "len wrapped_cache = 3" "start_idx wrapped_cache = 5"
    by (simp_all add: wrapped_cache_def)
  have le: "start_idx wrapped_cache \<le> 9" by (simp add: f)
  from EntryCacheDeleteHead_evicts [OF c le] c le show ?thesis
    by (auto simp: f)
qed

section \<open>Decimal numbers\<close>

lemma digit_char_props:
  assumes "d < 10"
  shows "isdigit (digit_char d)" and "digit_val (digit_char d) = d"
    and "digit_char d \<noteq> NUL" and "\<not> isspace (digit_char d)"
    and "digit_char d \<noteq> CHR ''-''" and "digit_char d \<noteq> CHR ''+''"
    and "digit_char d \<noteq> CHR 0x0A" and "digit_char d \<noteq> CHR 0x0D"
proof -
  from assms have "d \<in> {0, 1, 2, 3, 4, 5, 6, 7, 8, 9}" by auto
  then show "isdigit (digit_char d)" and "digit_val (digit_char d) = d"
    and "digit_char d \<noteq> NUL" and "\<not> isspace (digit_char d)"
    and "digit_char d \<noteq> CHR ''-''" and "digit_char d \<noteq> CHR ''+''"
    and "digit_char d \<noteq> CHR 0x0A" and "digit_char d \<noteq> CHR 0x0D"
    by (auto simp: digit_char_def isdigit_def digit_val_def NUL_def isspace_def)
qed

lemma dec_digits: "c \<in> set (dec n) \<Longrightarrow> \<exists>d < 10. c = digit_char d"
proof (induction n arbitrary: c rule: dec.induct)
  case (1 n)
  show ?case
  proof (cases "n < 10")
    case True
    with "1.prems" show ?thesis by (subst (asm) dec.simps) auto
  next
    case False
    from "1.prems" have "c \<in> set (dec (n div 10)) \<or> c = digit_char (n mod 10)"
      using False by (subst (asm) dec.simps) auto
    then show ?thesis
    proof
      assume "c \<in> set (dec (n div 10))"
      from "1.IH" [OF False this] show ?thesis .
    next
      assume "c = digit_char (n mod 10)"
      then show ?thesis by (intro exI [of _ "n mod 10"]) simp
    qed
  qed
qed

lemma dec_nonempty: "dec n \<noteq> []"
  by (subst dec.simps) simp

lemma length_dec_digit: "n < 10 \<Longrightarrow> length (dec n) = 1"
  by (subst dec.simps) simp

lemma digits_val_append: "digits_val (xs @ [c]) = 10 * digits_val xs + digit_val c"
  by (simp add: digits_val_def)

lemma digits_val_dec: "digits_val (dec n) = n"
proof (induction n rule: dec.induct)
  case (1 n)
  show ?case
  proof (cases "n < 10")
    case True
    then show ?thesis
      by (subst dec.simps) (simp add: digits_val_def digit_char_props)
  next
    case False
    then have "digits_val (dec n) = 10 * digits_val (dec (n div 10)) + digit_val (digit_char (n mod 10))"
      by (subst dec.simps) (simp add: digits_val_append)
    then show ?thesis using "1.IH" [OF False] by (simp add: digit_char_props)
  qed
qed

lemma length_dec_le: "n < 10 ^ k \<Longrightarrow> 0 < k \<Longrightarrow> length (dec n) \<le> k"
proof (induction n arbitrary: k rule: dec.induct)
  case (1 n)
  show ?case
  proof (cases "n < 10")
    case True
    then show ?thesis using "1.prems" by (subst dec.simps) simp
  next
    case False
    with "1.prems" obtain j where k: "k = Suc j" by (cases k) auto
    from False "1.prems" k have j: "0 < j" by (cases j) auto
    from "1.prems" k have "n div 10 < 10 ^ j"
      by (simp add: less_mult_imp_div_less mult.commute)
    from "1.IH" [OF False this j] have "length (dec (n div 10)) \<le> j" .
    then show ?thesis using False k by (subst dec.simps) simp
  qed
qed

lemma length_dec_two: "10 \<le> n \<Longrightarrow> n < 100 \<Longrightarrow> length (dec n) = 2"
  by (subst dec.simps) (simp add: length_dec_digit)

lemma length_dec_small: "n < 100 \<Longrightarrow> length (dec n) \<le> 2"
  by (rule length_dec_le) simp_all

lemma length_dec_word64: "length (dec (unat (v::64 word))) \<le> 20"
proof -
  have "unat v < 2 ^ 64" using unsigned_less [of v, where ?'a = nat] by simp
  also have "(2::nat) ^ 64 < 10 ^ 20" by simp
  finally show ?thesis by (intro length_dec_le) simp_all
qed

lemma dec_chars:
  assumes "c \<in> set (dec n)"
  shows "isdigit c" "c \<noteq> NUL" "\<not> isspace c" "c \<noteq> CHR ''-''" "c \<noteq> CHR ''+''"
    "c \<noteq> CHR 0x0A" "c \<noteq> CHR 0x0D"
  using dec_digits [OF assms] by (auto simp: digit_char_props)

lemma c_str_no_nul: "NUL \<notin> set s \<Longrightarrow> c_str s = s"
  by (auto simp: c_str_def takeWhile_eq_all_conv)

lemma scan_number_dec:
  assumes "stops rest"
  shows "scan_number (dec n @ rest) = (False, dec n, rest)"
proof -
  obtain c cs where d: "dec n = c # cs" using dec_nonempty [of n] by (cases "dec n") auto
  have c: "\<not> isspace c" "c \<noteq> CHR ''-''" "c \<noteq> CHR ''+''"
    using dec_chars [of c n] by (simp_all add: d)
  have all: "\<forall>x \<in> set (dec n). isdigit x" using dec_chars(1) by blast
  have tw: "takeWhile isdigit (dec n @ rest) = dec n"
    using all assms by (cases rest) (auto simp: stops_def takeWhile_append2 takeWhile_eq_all_conv)
  have dw: "dropWhile isdigit (dec n @ rest) = rest"
    using all assms by (cases rest) (auto simp: stops_def dropWhile_append2)
  have "dropWhile isspace (dec n @ rest) = dec n @ rest"
    using c by (simp add: d)
  then show ?thesis
    using c tw dw by (simp add: scan_number_def d [symmetric]) (simp add: d)
qed

lemma strtoul_dec:
  assumes "stops rest" and "n < 2 ^ 64"
  shows "strtoul (dec n @ rest) = (word_of_nat n, rest)"
  using assms by (simp add: strtoul_def scan_number_dec dec_nonempty digits_val_dec)

lemma strtoul_fmt_lu: "strtoul (c_str (fmt_lu v)) = (v, [])"
proof -
  have "NUL \<notin> set (dec (unat v))" using dec_chars(2) by blast
  then have "c_str (fmt_lu v) = dec (unat v) @ []" by (simp add: fmt_lu_def c_str_no_nul)
  moreover have "unat v < 2 ^ 64" using unsigned_less [of v, where ?'a = nat] by simp
  ultimately show ?thesis
    using strtoul_dec [of "[]" "unat v"] by (simp add: stops_def)
qed

section \<open>Reading what was written\<close>

lemma fgets_line_newline:
  assumes "CHR 0x0A \<notin> set s" and "length s < n"
  shows "fgets_line n (s @ CHR 0x0A # rest) = s @ [CHR 0x0A]"
  using assms
proof (induction s arbitrary: n)
  case Nil
  then show ?case by (cases n) simp_all
next
  case (Cons c s)
  then show ?case by (cases n) auto
qed

lemma length_CRLF: "length CRLF = 2"
  by (simp add: CRLF_def)

lemma ucast_of_nat_64_32: "(ucast (word_of_nat n :: 64 word) :: 32 word) = word_of_nat n"
  by (rule bit_word_eqI) (auto simp: bit_simps)

lemma unat_of_nat64: "n < 2 ^ 64 \<Longrightarrow> unat (word_of_nat n :: 64 word) = n"
  by (simp add: unat_of_nat)

lemma drop_more:
  assumes "drop p c = xs @ ys"
  shows "drop (p + length xs) c = ys"
proof -
  have "drop (p + length xs) c = drop (length xs) (drop p c)"
    by (simp add: add.commute)
  then show ?thesis by (simp add: assms)
qed

lemma readEncodedLength_dec:
  assumes inp: "drop (pos f) (contents f) = t # dec n @ CRLF @ rest"
    and n: "n < 2 ^ 64" and t: "t \<noteq> CHR 0x0A"
  shows "readEncodedLength f t =
           (Some (word_of_nat n), f\<lparr>pos := pos f + (3 + length (dec n))\<rparr>)"
proof -
  have le: "length (dec n) \<le> 20"
    using n by (intro length_dec_le) simp_all
  have nonl: "CHR 0x0A \<notin> set (t # dec n @ [CHR 0x0D])"
    using t dec_chars(6) [of _ n] by auto
  have "fgets_line 127 ((t # dec n @ [CHR 0x0D]) @ CHR 0x0A # rest) =
          (t # dec n @ [CHR 0x0D]) @ [CHR 0x0A]"
    using le by (intro fgets_line_newline [OF nonl]) simp
  then have line: "fgets_line 127 (t # dec n @ CRLF @ rest) = t # dec n @ CRLF"
    by (simp add: CRLF_def)
  have fg: "fgets 128 f = Some (t # dec n @ CRLF, f\<lparr>pos := pos f + (3 + length (dec n))\<rparr>)"
    by (simp add: fgets_def inp line length_CRLF)
  have "NUL \<notin> set (dec n @ CRLF)"
    using dec_chars(2) [of _ n] by (auto simp: CRLF_def NUL_def)
  then have cs: "c_str (dec n @ CRLF) = dec n @ CRLF" by (rule c_str_no_nul)
  have st: "strtoul (dec n @ CRLF) = (word_of_nat n, CRLF)"
    using n by (intro strtoul_dec) (simp_all add: stops_def CRLF_def isdigit_def)
  show ?thesis
    by (simp add: readEncodedLength_def fg cs st) (simp add: CRLF_def deref_def)
qed

lemma read_elements_bytes:
  assumes "drop (pos f) (contents f) = concat (map element_bytes els) @ rest"
    and "\<forall>el \<in> set els. length el + 2 < 2 ^ 64"
  shows "read_elements (length els) f =
           Some (Some els, f\<lparr>pos := pos f + length (concat (map element_bytes els))\<rparr>)"
  using assms
proof (induction els arbitrary: f)
  case Nil
  then show ?case by simp
next
  case (Cons el els)
  define n where "n = length el"
  have n: "n + 2 < 2 ^ 64" using Cons.prems(2) by (simp add: n_def)
  define f1 where "f1 = f\<lparr>pos := pos f + (3 + length (dec n))\<rparr>"
  define f2 where "f2 = f1\<lparr>pos := pos f1 + (n + 2)\<rparr>"
  define tail where "tail = concat (map element_bytes els) @ rest"
  have "concat (map element_bytes (el # els)) @ rest = element_bytes el @ tail"
    by (simp add: tail_def)
  also have "element_bytes el = CHR ''$'' # dec n @ CRLF @ el @ CRLF"
    by (simp add: element_bytes_def n_def)
  finally have inp: "drop (pos f) (contents f) = CHR ''$'' # dec n @ CRLF @ (el @ CRLF @ tail)"
    using Cons.prems(1) by simp
  have rl: "readEncodedLength f (CHR ''$'') = (Some (word_of_nat n), f1)"
    using n by (simp add: readEncodedLength_dec [OF inp] f1_def)
  have "drop (pos f + length (CHR ''$'' # dec n @ CRLF)) (contents f) = el @ CRLF @ tail"
    using inp by (intro drop_more) simp
  moreover have "pos f + length (CHR ''$'' # dec n @ CRLF) = pos f1"
    by (simp add: f1_def length_CRLF)
  ultimately have d1: "drop (pos f1) (contents f1) = (el @ CRLF) @ tail"
    by (simp add: f1_def eval_nat_numeral)
  have un: "unat (word_of_nat n :: 64 word) = n" "unat (word_of_nat n + 2 :: 64 word) = n + 2"
    using n by (simp_all add: unat_of_nat64 unat_add_lem [THEN iffD1])
  have fr: "fread (Suc (Suc n)) f1 = (el @ CRLF, f2)"
    by (simp add: fread_def d1 f2_def n_def length_CRLF)
  have bytes: "length el = n" "take n el = el"
    by (simp_all add: n_def)
  have "drop (pos f1 + length (el @ CRLF)) (contents f1) = tail"
    using d1 by (rule drop_more)
  moreover have "pos f1 + length (el @ CRLF) = pos f2"
    by (simp add: f2_def n_def length_CRLF)
  ultimately have d2: "drop (pos f2) (contents f2) = concat (map element_bytes els) @ rest"
    by (simp add: f2_def tail_def)
  have rest: "read_elements (length els) f2 =
      Some (Some els, f2\<lparr>pos := pos f2 + length (concat (map element_bytes els))\<rparr>)"
    using Cons.prems(2) by (intro Cons.IH [OF d2]) simp
  have "length (element_bytes el) = 3 + length (dec n) + (n + 2)"
    by (simp add: element_bytes_def n_def length_CRLF)
  then have "pos f2 + length (concat (map element_bytes els)) =
      pos f + length (concat (map element_bytes (el # els)))"
    by (simp add: f2_def f1_def)
  then have "f2\<lparr>pos := pos f2 + length (concat (map element_bytes els))\<rparr> =
      f\<lparr>pos := pos f + length (concat (map element_bytes (el # els)))\<rparr>"
    by (simp add: f2_def f1_def)
  then show ?case
    by (simp add: rl un fr rest bytes length_CRLF)
qed

lemma readRawLogEntry_record:
  assumes inp: "drop (pos f) (contents f) = record_bytes els @ rest"
    and n: "length els < 2 ^ 64"
    and els: "\<forall>el \<in> set els. length el + 2 < 2 ^ 64"
  shows "readRawLogEntry f =
           Some (Some \<lparr>num_elements = word_of_nat (length els), elements = els\<rparr>,
                 f\<lparr>pos := pos f + length (record_bytes els)\<rparr>)"
proof -
  define k where "k = length els"
  define f1 where "f1 = f\<lparr>pos := pos f + (3 + length (dec k))\<rparr>"
  have inp': "drop (pos f) (contents f) =
      CHR ''*'' # dec k @ CRLF @ (concat (map element_bytes els) @ rest)"
    using inp by (simp add: record_bytes_def k_def)
  have rl: "readEncodedLength f (CHR ''*'') = (Some (word_of_nat k), f1)"
    using n by (simp add: readEncodedLength_dec [OF inp'] f1_def k_def)
  have "drop (pos f + length (CHR ''*'' # dec k @ CRLF)) (contents f) =
      concat (map element_bytes els) @ rest"
    using inp' by (intro drop_more) simp
  moreover have "pos f + length (CHR ''*'' # dec k @ CRLF) = pos f1"
    by (simp add: f1_def length_CRLF)
  ultimately have d1: "drop (pos f1) (contents f1) = concat (map element_bytes els) @ rest"
    by (simp add: f1_def eval_nat_numeral)
  have un: "unat (word_of_nat k :: 64 word) = length els"
    using n by (simp add: unat_of_nat64 k_def)
  have "f1\<lparr>pos := pos f1 + length (concat (map element_bytes els))\<rparr> =
      f\<lparr>pos := pos f + length (record_bytes els)\<rparr>"
    by (simp add: f1_def record_bytes_def k_def length_CRLF)
  then show ?thesis
    using read_elements_bytes [OF d1 els]
    by (simp add: readRawLogEntry_def rl un) (simp add: k_def ucast_of_nat_64_32)
qed

lemma parseRaftLogEntry_entry:
  "parseRaftLogEntry \<lparr>num_elements = 5, elements = entry_elements e\<rparr> = Some (Some e)"
  by (simp add: parseRaftLogEntry_def entry_elements_def load_def strtoul_fmt_lu deref_def
      ucast_up_ucast_id is_up)

section \<open>Writing without a failure\<close>

lemma take_fault_ticks: "take_fault f = (b, g) \<Longrightarrow> g = ticks 1 f"
  by (cases "faults f") (auto simp: take_fault_def ticks_def)

lemma take_fault_none: "faults f = [] \<Longrightarrow> take_fault f = (False, f)"
  by (simp add: take_fault_def)

lemma ticks_ticks: "ticks j (ticks k f) = ticks (k + j) f"
  by (simp add: ticks_def add.commute)

lemma ticks_put: "ticks k (put z xs f) = put z xs (ticks k f)"
  by (simp add: ticks_def put_def Let_def)

lemma ticks_fields:
  "contents (ticks k f) = contents f" "pos (ticks k f) = pos f"
  "append_mode (ticks k f) = append_mode f"
  by (simp_all add: ticks_def)

lemma put_put: "put z ys (put z xs f) = put z (xs @ ys) f"
proof (cases "append_mode f")
  case True
  then show ?thesis by (simp add: put_def Let_def)
next
  case False
  define p where "p = pos f"
  define old where "old = contents f @ replicate (p - length (contents f)) z"
  have lo: "p \<le> length old" by (simp add: old_def)
  define c1 where "c1 = take p old @ xs @ drop (p + length xs) old"
  have l1: "p + length xs \<le> length c1" using lo by (simp add: c1_def)
  have one: "put z xs f = f\<lparr>contents := c1, pos := p + length xs\<rparr>"
    using False by (simp add: put_def Let_def p_def old_def c1_def)
  have tk: "take (p + length xs) c1 = take p old @ xs"
    using lo by (simp add: c1_def)
  have dr: "drop (p + length xs + length ys) c1 = drop (p + length xs + length ys) old"
    using lo by (simp add: c1_def add.commute add.left_commute)
  have "put z ys (put z xs f) = put z ys (f\<lparr>contents := c1, pos := p + length xs\<rparr>)"
    by (simp only: one)
  also have "\<dots> =
      f\<lparr>contents := take p old @ xs @ ys @ drop (p + length xs + length ys) old,
        pos := p + length xs + length ys\<rparr>"
    using False l1 by (simp add: put_def Let_def tk dr)
  finally have "put z ys (put z xs f) =
      f\<lparr>contents := take p old @ xs @ ys @ drop (p + length xs + length ys) old,
        pos := p + length xs + length ys\<rparr>" .
  moreover have "put z (xs @ ys) f =
      f\<lparr>contents := take p old @ xs @ ys @ drop (p + length xs + length ys) old,
        pos := p + length xs + length ys\<rparr>"
    using False by (simp add: put_def Let_def p_def old_def add.assoc)
  ultimately show ?thesis by simp
qed

lemma wrote_trans:
  assumes "wrote z f xs g" and "wrote z g ys h"
  shows "wrote z f (xs @ ys) h"
proof -
  from assms obtain j k where "g = put z xs (ticks j f)" "h = put z ys (ticks k g)"
    by (auto simp: wrote_def)
  then have "h = put z (xs @ ys) (ticks (j + k) f)"
    by (simp add: ticks_put put_put ticks_ticks)
  then show ?thesis by (auto simp: wrote_def)
qed

lemma wrote_ticks:
  assumes "wrote z f xs g"
  shows "wrote z f xs (ticks k g)"
proof -
  from assms obtain j where "g = put z xs (ticks j f)" by (auto simp: wrote_def)
  then have "ticks k g = put z xs (ticks (j + k) f)" by (simp add: ticks_put ticks_ticks)
  then show ?thesis by (auto simp: wrote_def)
qed

lemma wrote_append_mode:
  assumes "wrote z f xs g" and "append_mode f"
  shows "contents g = contents f @ xs" "pos g = length (contents f) + length xs"
    "append_mode g"
  using assms by (auto simp: wrote_def put_def Let_def ticks_def)

lemma wrote_overwrite:
  assumes "wrote z f xs g" and "\<not> append_mode f" and "pos f \<le> length (contents f)"
  shows "contents g = take (pos f) (contents f) @ xs @ drop (pos f + length xs) (contents f)"
    "pos g = pos f + length xs" "\<not> append_mode g"
  using assms by (auto simp: wrote_def put_def Let_def ticks_def)

lemma fprintf_ok:
  assumes "fprintf f s = (n, g)" and "0 < n"
  shows "wrote NUL f s g" "n = int (length s)"
proof -
  obtain b h where tf: "take_fault f = (b, h)" by force
  from assms tf have "\<not> b" and g: "g = put NUL s h" and n: "n = int (length s)"
    by (auto simp: fprintf_def split: bool.splits)
  from g take_fault_ticks [OF tf] show "wrote NUL f s g" by (auto simp: wrote_def)
  from n show "n = int (length s)" .
qed

lemma fwrite_ok:
  assumes "fwrite z xs f = (w, g)" and "length xs \<le> w" and "xs \<noteq> []"
  shows "wrote z f xs g"
proof -
  obtain b h where tf: "take_fault f = (b, h)" by force
  from assms tf have "g = put z xs h"
    by (auto simp: fwrite_def split: bool.splits)
  with take_fault_ticks [OF tf] show ?thesis by (auto simp: wrote_def)
qed

lemma fflush_ticks: "fflush f = (r, g) \<Longrightarrow> g = ticks 1 f"
  by (auto simp: fflush_def split: prod.splits bool.splits dest: take_fault_ticks)

lemma fsync_ticks: "fsync f = (r, g) \<Longrightarrow> g = ticks 1 f"
  by (auto simp: fsync_def split: prod.splits bool.splits dest: take_fault_ticks)

lemma writeEnd_ok:
  assumes "writeEnd f b = (r, g)" and "0 \<le> r"
  shows "\<exists>k. g = ticks k f"
  using assms
  by (auto simp: writeEnd_def ticks_ticks split: if_splits prod.splits
      dest!: fflush_ticks fsync_ticks)

lemma writeBegin_ok:
  assumes "writeBegin f n = (r, g)" and "0 \<le> r"
  shows "wrote NUL f (''*'' @ dec (unat n) @ CRLF) g"
    "r = int (length (''*'' @ dec (unat n) @ CRLF))"
proof -
  obtain m h where fp: "fprintf f (''*'' @ dec (unat n) @ CRLF) = (m, h)" by force
  with assms have "0 < m" "g = h" "r = m"
    by (auto simp: writeBegin_def split: if_splits)
  with fprintf_ok [OF fp] show "wrote NUL f (''*'' @ dec (unat n) @ CRLF) g"
    "r = int (length (''*'' @ dec (unat n) @ CRLF))" by simp_all
qed

lemma int_of_size_t_small: "n < 2 ^ 31 \<Longrightarrow> int_of_size_t n = int n"
  by (simp add: int_of_size_t_def signed_of_nat signed_take_bit_int_eq_self)


lemma length_element_bytes: "length (element_bytes s) = 5 + length (dec (length s)) + length s"
  by (simp add: element_bytes_def length_CRLF)

lemma writeBuffer_ok:
  assumes wb: "writeBuffer f buf (length buf) = (r, g)" and r: "0 \<le> r"
    and small: "length buf + 25 < 2 ^ 31"
  shows "wrote NUL f (element_bytes buf) g" "r = int (length (element_bytes buf))"
proof -
  define hdr where "hdr = CHR ''$'' # dec (length buf) @ CRLF"
  obtain m h where fp: "fprintf f hdr = (m, h)" by force
  obtain w1 h1 where fw1: "fwrite NUL buf h = (w1, h1)" by force
  obtain w2 h2 where fw2: "fwrite NUL CRLF h1 = (w2, h2)" by force
  from wb r fp fw1 fw2 have m: "0 < m" and w1: "length buf \<le> w1" and w2: "2 \<le> w2"
    and g: "g = h2" and rv: "r = int_of_size_t (nat m + length buf + 2)"
    by (auto simp: writeBuffer_def fp [unfolded hdr_def] split: if_splits)
  note a = fprintf_ok [OF fp m]
  have b: "wrote NUL f (hdr @ buf) h1"
  proof (cases "buf = []")
    case True
    with fw1 have "h1 = h" by (simp add: fwrite_def)
    with a(1) True show ?thesis by simp
  next
    case False
    from wrote_trans [OF a(1) fwrite_ok [OF fw1 w1 False]] show ?thesis .
  qed
  have "wrote NUL h1 CRLF h2"
    using w2 by (intro fwrite_ok [OF fw2]) (simp_all add: CRLF_def)
  from wrote_trans [OF b this] show "wrote NUL f (element_bytes buf) g"
    by (simp add: g element_bytes_def hdr_def)
  have "length (dec (length buf)) \<le> 10"
    using small by (intro length_dec_le) simp_all
  then have "nat m + length buf + 2 < 2 ^ 31"
    using small a(2) by (simp add: hdr_def length_CRLF)
  then show "r = int (length (element_bytes buf))"
    using a(2) by (simp add: rv int_of_size_t_small length_element_bytes hdr_def length_CRLF)
qed

lemma writeUnsignedInteger_ok:
  assumes wu: "writeUnsignedInteger f v pad = (r, g)" and r: "0 \<le> r"
  shows "wrote NUL f (element_bytes (take 23 (if pad \<noteq> 0 then fmt_0lu pad v else fmt_lu v))) g"
    "r = int (length (element_bytes (take 23 (if pad \<noteq> 0 then fmt_0lu pad v else fmt_lu v))))"
proof -
  define buf where "buf = take 23 (if pad \<noteq> 0 then fmt_0lu pad v else fmt_lu v)"
  have unf: "writeUnsignedInteger f v pad =
      (case fprintf f (element_bytes buf) of (n, f) \<Rightarrow> if n \<le> 0 then (- 1, f) else (n, f))"
    by (simp add: writeUnsignedInteger_def Let_def buf_def element_bytes_def)
  obtain m h where fp: "fprintf f (element_bytes buf) = (m, h)" by force
  from wu r have m: "0 < m" and g: "g = h" and rv: "r = m"
    by (auto simp: unf fp split: if_splits)
  from fprintf_ok [OF fp m] g rv
  show "wrote NUL f (element_bytes (take 23 (if pad \<noteq> 0 then fmt_0lu pad v else fmt_lu v))) g"
    "r = int (length (element_bytes (take 23 (if pad \<noteq> 0 then fmt_0lu pad v else fmt_lu v))))"
    by (simp_all add: buf_def)
qed

lemma writeInteger_ok:
  assumes wu: "writeInteger f v pad = (r, g)" and r: "0 \<le> r"
  shows "wrote NUL f (element_bytes (take 23 (if pad \<noteq> 0 then fmt_0ld pad v else fmt_ld v))) g"
    "r = int (length (element_bytes (take 23 (if pad \<noteq> 0 then fmt_0ld pad v else fmt_ld v))))"
proof -
  define buf where "buf = take 23 (if pad \<noteq> 0 then fmt_0ld pad v else fmt_ld v)"
  have unf: "writeInteger f v pad =
      (case fprintf f (element_bytes buf) of (n, f) \<Rightarrow> if n \<le> 0 then (- 1, f) else (n, f))"
    by (simp add: writeInteger_def Let_def buf_def element_bytes_def)
  obtain m h where fp: "fprintf f (element_bytes buf) = (m, h)" by force
  from wu r have m: "0 < m" and g: "g = h" and rv: "r = m"
    by (auto simp: unf fp split: if_splits)
  from fprintf_ok [OF fp m] g rv
  show "wrote NUL f (element_bytes (take 23 (if pad \<noteq> 0 then fmt_0ld pad v else fmt_ld v))) g"
    "r = int (length (element_bytes (take 23 (if pad \<noteq> 0 then fmt_0ld pad v else fmt_ld v))))"
    by (simp_all add: buf_def)
qed

lemma take23_fmt_lu: "take 23 (fmt_lu v) = fmt_lu v"
  using length_dec_word64 [of v] by (simp add: fmt_lu_def)

lemma length_fmt_0lu: "length (dec (unat v)) \<le> w \<Longrightarrow> length (fmt_0lu w v) = w"
  by (simp add: fmt_0lu_def zero_pad_def)

lemma length_fmt_0lu_20: "length (fmt_0lu 20 v) = 20"
  using length_dec_word64 [of v] by (rule length_fmt_0lu)

lemma length_fmt_version: "length (fmt_0lu 4 RAFTLOG_VERSION) = 4"
  by (simp add: fmt_0lu_def zero_pad_def RAFTLOG_VERSION_def dec.simps)

lemma length_fmt_vote: "length (fmt_0ld 11 (scast (v::32 word))) = 11"
proof -
  have s: "sint (scast v :: 64 word) = sint v"
    by (simp add: sint_up_scast is_up)
  have lo: "- (2 ^ 31) \<le> sint v" and hi: "sint v < 2 ^ 31"
    using sint_ge [of v] sint_lt [of v] by simp_all
  show ?thesis
  proof (cases "sint v < 0")
    case True
    then have "nat (- sint v) < 10 ^ 10" using lo by simp
    then have "length (dec (nat (- sint v))) \<le> 10" by (intro length_dec_le) simp_all
    with True show ?thesis by (simp add: fmt_0ld_def s zero_pad_def)
  next
    case False
    then have "nat (sint v) < 10 ^ 11" using hi by simp
    then have "length (dec (nat (sint v))) \<le> 11" by (intro length_dec_le) simp_all
    with False show ?thesis by (simp add: fmt_0ld_def s zero_pad_def)
  qed
qed

lemma take23_small: "length s \<le> 23 \<Longrightarrow> take 23 s = s"
  by simp

lemma writeLogHeader_ok:
  assumes wh: "writeLogHeader f log = (r, g)" and r: "0 \<le> r"
    and small: "length (dbid log) + 25 < 2 ^ 31"
  shows "wrote NUL f (header_bytes log) g"
proof -
  obtain n1 f1 where e1: "writeBegin f 7 = (n1, f1)" by force
  obtain n2 f2 where e2: "writeBuffer f1 ''RAFTLOG'' 7 = (n2, f2)" by force
  obtain n3 f3 where e3: "writeUnsignedInteger f2 RAFTLOG_VERSION 4 = (n3, f3)" by force
  obtain n4 f4 where e4: "writeBuffer f3 (dbid log) (length (dbid log)) = (n4, f4)" by force
  obtain n5 f5 where e5: "writeUnsignedInteger f4 (snapshot_last_term log) 20 = (n5, f5)"
    by force
  obtain n6 f6 where e6: "writeUnsignedInteger f5 (snapshot_last_idx log) 20 = (n6, f6)"
    by force
  obtain n7 f7 where e7: "writeUnsignedInteger f6 (log_term log) 20 = (n7, f7)" by force
  obtain n8 f8 where e8: "writeInteger f7 (scast (vote log)) 11 = (n8, f8)" by force
  obtain n9 f9 where e9: "writeEnd f8 (no_fsync log) = (n9, f9)" by force
  from wh r have ok: "0 \<le> n1" "0 \<le> n2" "0 \<le> n3" "0 \<le> n4" "0 \<le> n5" "0 \<le> n6" "0 \<le> n7"
    "0 \<le> n8" "0 \<le> n9" and g: "g = f9"
    by (auto simp: writeLogHeader_def e1 e2 e3 e4 e5 e6 e7 e8 e9 split: if_splits)
  have w1: "wrote NUL f (''*'' @ dec 7 @ CRLF) f1"
    using writeBegin_ok(1) [OF e1 ok(1)] by simp
  have l7: "length ''RAFTLOG'' = 7" by simp
  have w2: "wrote NUL f1 (element_bytes ''RAFTLOG'') f2"
    using writeBuffer_ok(1) [of f1 "''RAFTLOG''" n2 f2, unfolded l7] e2 ok(2) by simp
  have w3: "wrote NUL f2 (element_bytes (fmt_0lu 4 RAFTLOG_VERSION)) f3"
    using writeUnsignedInteger_ok(1) [OF e3 ok(3)] by (simp add: length_fmt_version)
  have w4: "wrote NUL f3 (element_bytes (dbid log)) f4"
    using writeBuffer_ok(1) [OF e4 ok(4) small] .
  have w5: "wrote NUL f4 (element_bytes (fmt_0lu 20 (snapshot_last_term log))) f5"
    using writeUnsignedInteger_ok(1) [OF e5 ok(5)] by (simp add: length_fmt_0lu_20)
  have w6: "wrote NUL f5 (element_bytes (fmt_0lu 20 (snapshot_last_idx log))) f6"
    using writeUnsignedInteger_ok(1) [OF e6 ok(6)] by (simp add: length_fmt_0lu_20)
  have w7: "wrote NUL f6 (element_bytes (fmt_0lu 20 (log_term log))) f7"
    using writeUnsignedInteger_ok(1) [OF e7 ok(7)] by (simp add: length_fmt_0lu_20)
  have w8: "wrote NUL f7 (element_bytes (fmt_0ld 11 (scast (vote log)))) f8"
    using writeInteger_ok(1) [OF e8 ok(8)] by (simp add: length_fmt_vote)
  from writeEnd_ok [OF e9 ok(9)] obtain k where f9: "f9 = ticks k f8" by blast
  note w = wrote_trans [OF wrote_trans [OF wrote_trans [OF wrote_trans [OF wrote_trans
    [OF wrote_trans [OF wrote_trans [OF w1 w2] w3] w4] w5] w6] w7] w8]
  have len7: "length (header_elements log) = 7" by (simp add: header_elements_def)
  have hb: "header_bytes log = ''*'' @ dec 7 @ CRLF @ element_bytes ''RAFTLOG'' @
      element_bytes (fmt_0lu 4 RAFTLOG_VERSION) @ element_bytes (dbid log) @
      element_bytes (fmt_0lu 20 (snapshot_last_term log)) @
      element_bytes (fmt_0lu 20 (snapshot_last_idx log)) @
      element_bytes (fmt_0lu 20 (log_term log)) @
      element_bytes (fmt_0ld 11 (scast (vote log)))"
    unfolding header_bytes_def record_bytes_def len7 by (simp add: header_elements_def)
  from wrote_ticks [OF w, of k] show ?thesis by (simp add: g f9 hb)
qed

text \<open>The length of the header depends on the identifier only.\<close>

lemma length_header_bytes:
  "length (header_bytes log) = 131 + length (dec (length (dbid log))) + length (dbid log)"
proof -
  have len7: "length (header_elements log) = 7" by (simp add: header_elements_def)
  show ?thesis
    unfolding header_bytes_def record_bytes_def len7
    by (simp add: header_elements_def length_element_bytes length_fmt_version
        length_fmt_0lu_20 length_fmt_vote length_CRLF length_dec_digit length_dec_two)
qed

section \<open>Writing when nothing fails\<close>

lemma faults_put: "faults (put z xs f) = faults f"
  by (simp add: put_def Let_def)

lemma put_nil_after: "put z [] (put z xs f) = put z xs f"
  using put_put [of z "[]" xs f] by simp

lemma nf_fprintf: "faults f = [] \<Longrightarrow> fprintf f s = (int (length s), put NUL s f)"
  by (simp add: fprintf_def take_fault_none)

lemma nf_fwrite: "faults f = [] \<Longrightarrow> xs \<noteq> [] \<Longrightarrow> fwrite z xs f = (length xs, put z xs f)"
  by (simp add: fwrite_def take_fault_none)

lemma nf_writeEnd: "faults f = [] \<Longrightarrow> writeEnd f b = (0, f)"
  by (simp add: writeEnd_def fflush_def fsync_def take_fault_none)

lemma nf_writeBegin:
  "faults f = [] \<Longrightarrow>
   writeBegin f n = (int (length (''*'' @ dec (unat n) @ CRLF)), put NUL (''*'' @ dec (unat n) @ CRLF) f)"
  by (simp add: writeBegin_def nf_fprintf)

lemma nf_writeBuffer:
  assumes nf: "faults f = []" and small: "length buf + 25 < 2 ^ 31"
  shows "writeBuffer f buf (length buf) =
           (int (length (element_bytes buf)), put NUL (element_bytes buf) f)"
proof -
  define hdr where "hdr = CHR ''$'' # dec (length buf) @ CRLF"
  define f1 where "f1 = put NUL hdr f"
  have nf1: "faults f1 = []" by (simp add: f1_def faults_put nf)
  have fw: "fwrite NUL buf f1 = (length buf, put NUL (hdr @ buf) f)"
  proof (cases "buf = []")
    case True
    then show ?thesis by (simp add: fwrite_def f1_def)
  next
    case False
    from nf_fwrite [OF nf1 False, of NUL] show ?thesis by (simp add: f1_def put_put)
  qed
  have nf2: "faults (put NUL (hdr @ buf) f) = []" by (simp add: faults_put nf)
  have fw2: "fwrite NUL CRLF (put NUL (hdr @ buf) f) = (2, put NUL ((hdr @ buf) @ CRLF) f)"
    using nf_fwrite [OF nf2, of CRLF NUL] by (simp add: put_put CRLF_def)
  have "length (dec (length buf)) \<le> 10"
    using small by (intro length_dec_le) simp_all
  then have "length hdr + length buf + 2 < 2 ^ 31"
    using small by (simp add: hdr_def length_CRLF)
  then have "int_of_size_t (length hdr + length buf + 2) = int (length (element_bytes buf))"
    by (simp add: int_of_size_t_small length_element_bytes hdr_def length_CRLF)
  moreover have "(hdr @ buf) @ CRLF = element_bytes buf"
    by (simp add: hdr_def element_bytes_def)
  moreover have "hdr \<noteq> []" by (simp add: hdr_def)
  ultimately show ?thesis
    using fw fw2
    by (simp add: writeBuffer_def nf_fprintf [OF nf] hdr_def [symmetric] f1_def [symmetric])
qed

lemma nf_writeUnsignedInteger:
  assumes "faults f = []"
  shows "writeUnsignedInteger f v pad =
           (int (length (element_bytes (take 23 (if pad \<noteq> 0 then fmt_0lu pad v else fmt_lu v)))),
            put NUL (element_bytes (take 23 (if pad \<noteq> 0 then fmt_0lu pad v else fmt_lu v))) f)"
  using assms by (simp add: writeUnsignedInteger_def Let_def nf_fprintf element_bytes_def)

lemma nf_writeInteger:
  assumes "faults f = []"
  shows "writeInteger f v pad =
           (int (length (element_bytes (take 23 (if pad \<noteq> 0 then fmt_0ld pad v else fmt_ld v)))),
            put NUL (element_bytes (take 23 (if pad \<noteq> 0 then fmt_0ld pad v else fmt_ld v))) f)"
  using assms by (simp add: writeInteger_def Let_def nf_fprintf element_bytes_def)

lemma nf_writeLogHeader:
  assumes nf: "faults f = []" and small: "length (dbid log) + 25 < 2 ^ 31"
  shows "writeLogHeader f log = (0, put NUL (header_bytes log) f)"
proof -
  have len7: "length (header_elements log) = 7" by (simp add: header_elements_def)
  have l7: "length ''RAFTLOG'' = 7" by simp
  have hb: "header_bytes log = ''*'' @ dec 7 @ CRLF @ element_bytes ''RAFTLOG'' @
      element_bytes (fmt_0lu 4 RAFTLOG_VERSION) @ element_bytes (dbid log) @
      element_bytes (fmt_0lu 20 (snapshot_last_term log)) @
      element_bytes (fmt_0lu 20 (snapshot_last_idx log)) @
      element_bytes (fmt_0lu 20 (log_term log)) @
      element_bytes (fmt_0ld 11 (scast (vote log)))"
    unfolding header_bytes_def record_bytes_def len7 by (simp add: header_elements_def)
  have wb: "writeBuffer g ''RAFTLOG'' 7 =
      (int (length (element_bytes ''RAFTLOG'')), put NUL (element_bytes ''RAFTLOG'') g)"
    if "faults g = []" for g
    using nf_writeBuffer [OF that, of "''RAFTLOG''", unfolded l7] by simp
  show ?thesis
    unfolding writeLogHeader_def
    by (simp add: nf nf_writeBegin wb nf_writeUnsignedInteger nf_writeInteger
        nf_writeBuffer [OF _ small] nf_writeEnd faults_put put_put length_fmt_version
        length_fmt_0lu_20 length_fmt_vote hb)
qed

section \<open>Rewriting the header\<close>

lemma header_bytes_cong:
  assumes "dbid a = dbid b" "snapshot_last_term a = snapshot_last_term b"
    "snapshot_last_idx a = snapshot_last_idx b" "log_term a = log_term b" "vote a = vote b"
  shows "header_bytes a = header_bytes b"
  using assms by (simp add: header_bytes_def header_elements_def)

lemma updateLogHeader_ok:
  assumes up: "updateLogHeader log = Some (r, log')" and r: "0 \<le> r"
    and fits: "length (header_bytes log) \<le> length (contents (file' log))"
    and small: "length (dbid log) + 25 < 2 ^ 31"
  shows "contents (file' log') =
           header_bytes log @ drop (length (header_bytes log)) (contents (file' log))"
    and "\<exists>f. log' = log\<lparr>file' := f\<rparr>" and "append_mode (file' log')"
proof -
  from up obtain f0 where o1: "reopen (file' log) False = Some f0"
    by (auto simp: updateLogHeader_def split: Option.bind_splits)
  obtain ret f1 where wh: "writeLogHeader f0 log = (ret, f1)" by force
  from up o1 wh obtain f2 where o2: "reopen f1 True = Some f2"
    and res: "r = ret" "log' = log\<lparr>file' := f2\<rparr>"
    by (auto simp: updateLogHeader_def split: Option.bind_splits)
  from o1 have f0: "contents f0 = contents (file' log)" "pos f0 = 0" "\<not> append_mode f0"
    by (auto simp: reopen_def split: prod.splits bool.splits dest!: take_fault_ticks
        simp: ticks_def)
  from o2 have f2: "contents f2 = contents f1" "append_mode f2"
    by (auto simp: reopen_def split: prod.splits bool.splits dest!: take_fault_ticks
        simp: ticks_def)
  from r res have "0 \<le> ret" by simp
  from writeLogHeader_ok [OF wh this small]
  have w: "wrote NUL f0 (header_bytes log) f1" .
  from wrote_overwrite(1) [OF w f0(3)] f0
  have "contents f1 = header_bytes log @ drop (length (header_bytes log)) (contents (file' log))"
    by simp
  then show "contents (file' log') =
      header_bytes log @ drop (length (header_bytes log)) (contents (file' log))"
    by (simp add: res f2)
  show "\<exists>f. log' = log\<lparr>file' := f\<rparr>" using res by blast
  show "append_mode (file' log')" by (simp add: res f2)
qed

lemma header_rewrite_core:
  assumes up: "updateLogHeader log1 = Some (r, log')" and r: "0 \<le> r"
    and same: "dbid log1 = dbid log" "file' log1 = file' log"
    and fits: "length (header_bytes log) \<le> length (contents (file' log))"
    and dbid: "length (dbid log) \<le> RAFT_DBID_LEN"
  shows "length (contents (file' log')) = length (contents (file' log)) \<and>
         drop (length (header_bytes log)) (contents (file' log')) =
           drop (length (header_bytes log)) (contents (file' log)) \<and>
         take (length (header_bytes log)) (contents (file' log')) = header_bytes log' \<and>
         length (header_bytes log') = length (header_bytes log)"
proof -
  have len: "length (header_bytes log1) = length (header_bytes log)"
    by (simp add: length_header_bytes same)
  have small: "length (dbid log1) + 25 < 2 ^ 31"
    using dbid by (simp add: same RAFT_DBID_LEN_def)
  have fits1: "length (header_bytes log1) \<le> length (contents (file' log1))"
    using fits by (simp add: len same)
  note u = updateLogHeader_ok [OF up r fits1 small]
  from u(2) have hb: "header_bytes log' = header_bytes log1"
    by (auto intro: header_bytes_cong)
  have c: "contents (file' log') =
      header_bytes log1 @ drop (length (header_bytes log)) (contents (file' log))"
    using u(1) by (simp add: len same)
  show ?thesis
    using fits by (simp add: c hb len)
qed

text \<open>
  Claim C8. When the log file holds a header (it is at least as long as the header of the log's
  identifier) and \<open>RaftLogSetTerm\<close> or \<open>RaftLogSetVote\<close> rewrites the header, the length of the file
  is unchanged and so is every byte past the header: the file starts with the new header, whose
  length is that of the old one, because the zero-padded fields have the same width for every
  value.
\<close>

theorem header_rewrite_in_place:
  assumes fits: "length (header_bytes log) \<le> length (contents (file' log))"
    and dbid: "length (dbid log) \<le> RAFT_DBID_LEN"
    and op: "op = RaftLogSetTerm log t v \<or> op = RaftLogSetVote log v"
    and ok: "op = Some (RR_OK, log')"
  shows "length (contents (file' log')) = length (contents (file' log)) \<and>
         drop (length (header_bytes log)) (contents (file' log')) =
           drop (length (header_bytes log)) (contents (file' log)) \<and>
         take (length (header_bytes log)) (contents (file' log')) = header_bytes log' \<and>
         length (header_bytes log') = length (header_bytes log)"
  using op
proof
  assume "op = RaftLogSetTerm log t v"
  with ok obtain r where "updateLogHeader (log\<lparr>log_term := t, vote := v\<rparr>) = Some (r, log')"
    and "0 \<le> r"
    by (auto simp: RaftLogSetTerm_def split: Option.bind_splits if_splits)
  then show ?thesis
    by (rule header_rewrite_core) (simp_all add: fits dbid)
next
  assume "op = RaftLogSetVote log v"
  with ok obtain r where "updateLogHeader (log\<lparr>vote := v\<rparr>) = Some (r, log')" and "0 \<le> r"
    by (auto simp: RaftLogSetVote_def split: Option.bind_splits if_splits)
  then show ?thesis
    by (rule header_rewrite_core) (simp_all add: fits dbid)
qed

section \<open>Appending an entry\<close>

lemma length5: "length ''ENTRY'' = 5"
  by simp

lemma entry_bytes_parts:
  "entry_bytes e = ''*'' @ dec 5 @ CRLF @ element_bytes ''ENTRY'' @
     element_bytes (fmt_lu (term' e)) @ element_bytes (fmt_lu (ucast (id' e))) @
     element_bytes (fmt_lu (ucast (type' e))) @ element_bytes (data e)"
proof -
  have len5: "length (entry_elements e) = 5" by (simp add: entry_elements_def)
  show ?thesis
    unfolding entry_bytes_def record_bytes_def len5 by (simp add: entry_elements_def)
qed

lemma updateIndex_ok:
  assumes "updateIndex log idx off = (r, log')" and "0 \<le> r"
  shows "0 \<le> idx_slot (idx - snapshot_last_idx log)"
    and "log' = log\<lparr>idxfile := idxfile log'\<rparr>"
    and "wrote 0 ((idxfile log)\<lparr>pos := nat (idx_slot (idx - snapshot_last_idx log))\<rparr>) [off]
           (idxfile log')"
proof -
  define sl where "sl = idx_slot (idx - snapshot_last_idx log)"
  obtain w xf where fw: "fwrite 0 [off] ((idxfile log)\<lparr>pos := nat sl\<rparr>) = (w, xf)" by force
  from assms have sl: "0 \<le> sl" and w: "w = 1" and l: "log' = log\<lparr>idxfile := xf\<rparr>"
    by (auto simp: updateIndex_def Let_def fseek_def sl_def [symmetric] fw split: if_splits)
  show "0 \<le> idx_slot (idx - snapshot_last_idx log)" using sl by (simp add: sl_def)
  show "log' = log\<lparr>idxfile := idxfile log'\<rparr>" by (simp add: l)
  have "wrote 0 ((idxfile log)\<lparr>pos := nat sl\<rparr>) [off] xf"
    using w by (intro fwrite_ok [OF fw]) simp_all
  then show "wrote 0 ((idxfile log)\<lparr>pos := nat (idx_slot (idx - snapshot_last_idx log))\<rparr>) [off]
           (idxfile log')"
    by (simp add: l sl_def)
qed

lemma RaftLogWriteEntry_ok:
  assumes we: "RaftLogWriteEntry log e = (RR_OK, log')"
    and small: "length (data e) + 25 < 2 ^ 31" and app: "append_mode (file' log)"
  shows "log' = log\<lparr>file' := file' log', index := index log + 1, idxfile := idxfile log'\<rparr>"
    and "wrote NUL (file' log) (entry_bytes e) (file' log')"
    and "0 \<le> idx_slot (index log + 1 - snapshot_last_idx log)"
    and "wrote 0 ((idxfile log)\<lparr>pos := nat (idx_slot (index log + 1 - snapshot_last_idx log))\<rparr>)
           [word_of_nat (length (contents (file' log)))] (idxfile log')"
proof -
  obtain n1 f1 where e1: "writeBegin (file' log) 5 = (n1, f1)" by force
  obtain n2 f2 where e2: "writeBuffer f1 ''ENTRY'' 5 = (n2, f2)" by force
  obtain n3 f3 where e3: "writeUnsignedInteger f2 (term' e) 0 = (n3, f3)" by force
  obtain n4 f4 where e4: "writeUnsignedInteger f3 (ucast (id' e)) 0 = (n4, f4)" by force
  obtain n5 f5 where e5: "writeUnsignedInteger f4 (ucast (type' e)) 0 = (n5, f5)" by force
  obtain n6 f6 where e6: "writeBuffer f5 (data e) (length (data e)) = (n6, f6)" by force
  define written where "written = nat n1 + nat n2 + nat n3 + nat n4 + nat n5 + nat n6"
  define off :: "64 word" where "off = word_of_nat (ftell f6) - word_of_nat written"
  define log1 where "log1 = log\<lparr>file' := f6, index := index log + 1\<rparr>"
  obtain r log2 where ui: "updateIndex log1 (index log1) off = (r, log2)" by force
  from we have ok: "0 \<le> n1" "0 \<le> n2" "0 \<le> n3" "0 \<le> n4" "0 \<le> n5" "0 \<le> n6" "0 \<le> r"
    and l: "log' = log2"
    using ui
    by (auto simp: RaftLogWriteEntry_def Let_def data_len_def e1 e2 e3 e4 e5 e6
        written_def [symmetric] off_def [symmetric] log1_def [symmetric] split: if_splits)
  note b1 = writeBegin_ok [OF e1 ok(1)]
  note b2 = writeBuffer_ok [of f1 "''ENTRY''" n2 f2, unfolded length5, OF e2 ok(2)]
  note b3 = writeUnsignedInteger_ok [OF e3 ok(3)]
  note b4 = writeUnsignedInteger_ok [OF e4 ok(4)]
  note b5 = writeUnsignedInteger_ok [OF e5 ok(5)]
  note b6 = writeBuffer_ok [OF e6 ok(6) small]
  have w1: "wrote NUL (file' log) (''*'' @ dec 5 @ CRLF) f1" using b1(1) by simp
  have w2: "wrote NUL f1 (element_bytes ''ENTRY'') f2" using b2(1) by simp
  have w3: "wrote NUL f2 (element_bytes (fmt_lu (term' e))) f3"
    using b3(1) by (simp add: take23_fmt_lu)
  have w4: "wrote NUL f3 (element_bytes (fmt_lu (ucast (id' e)))) f4"
    using b4(1) by (simp add: take23_fmt_lu)
  have w5: "wrote NUL f4 (element_bytes (fmt_lu (ucast (type' e)))) f5"
    using b5(1) by (simp add: take23_fmt_lu)
  note w = wrote_trans [OF wrote_trans [OF wrote_trans [OF wrote_trans [OF wrote_trans
    [OF w1 w2] w3] w4] w5] b6(1)]
  then have wr: "wrote NUL (file' log) (entry_bytes e) f6"
    by (simp add: entry_bytes_parts)
  have "written = length (entry_bytes e)"
    using b1(2) b2(2) b3(2) b4(2) b5(2) b6(2)
    by (simp add: written_def entry_bytes_parts take23_fmt_lu)
  moreover have "ftell f6 = length (contents (file' log)) + length (entry_bytes e)"
    using wrote_append_mode(2) [OF wr app] by (simp add: ftell_def)
  ultimately have off: "off = word_of_nat (length (contents (file' log)))"
    by (simp add: off_def)
  note u = updateIndex_ok [OF ui ok(7)]
  have l2: "log2 = log\<lparr>file' := f6, index := index log + 1, idxfile := idxfile log2\<rparr>"
    using u(2) by (simp add: log1_def)
  have f: "file' log2 = f6"
    by (subst l2) simp
  show "log' = log\<lparr>file' := file' log', index := index log + 1, idxfile := idxfile log'\<rparr>"
    using l2 f by (simp add: l)
  show "wrote NUL (file' log) (entry_bytes e) (file' log')"
    using wr by (simp add: l f)
  show "0 \<le> idx_slot (index log + 1 - snapshot_last_idx log)"
    using u(1) by (simp add: log1_def)
  show "wrote 0 ((idxfile log)\<lparr>pos := nat (idx_slot (index log + 1 - snapshot_last_idx log))\<rparr>)
           [word_of_nat (length (contents (file' log)))] (idxfile log')"
    using u(3) by (simp add: log1_def off l)
qed

lemma RaftLogAppend_ok:
  assumes ap: "RaftLogAppend log e = (RR_OK, log')"
    and small: "length (data e) + 25 < 2 ^ 31" and app: "append_mode (file' log)"
  shows "log' = log\<lparr>file' := file' log', index := index log + 1, idxfile := idxfile log',
                    num_entries := num_entries log + 1\<rparr>"
    and "wrote NUL (file' log) (entry_bytes e) (file' log')"
    and "0 \<le> idx_slot (index log + 1 - snapshot_last_idx log)"
    and "wrote 0 ((idxfile log)\<lparr>pos := nat (idx_slot (index log + 1 - snapshot_last_idx log))\<rparr>)
           [word_of_nat (length (contents (file' log)))] (idxfile log')"
proof -
  obtain st log1 where we: "RaftLogWriteEntry log e = (st, log1)" by force
  obtain r f where en: "writeEnd (file' log1) (no_fsync log1) = (r, f)" by force
  from ap we en have st: "st = RR_OK" and r: "0 \<le> r"
    and l: "log' = log1\<lparr>file' := f, num_entries := num_entries log1 + 1\<rparr>"
    by (auto simp: RaftLogAppend_def Let_def split: if_splits)
  note w = RaftLogWriteEntry_ok [OF we [unfolded st] small app]
  from writeEnd_ok [OF en r] obtain k where f: "f = ticks k (file' log1)" by blast
  have n1: "num_entries log1 = num_entries log" "idxfile log' = idxfile log1" "file' log' = f"
    by (subst w(1), simp) (simp_all add: l)
  show "log' = log\<lparr>file' := file' log', index := index log + 1, idxfile := idxfile log',
                    num_entries := num_entries log + 1\<rparr>"
    by (subst l, subst w(1)) (simp add: n1)
  show "wrote NUL (file' log) (entry_bytes e) (file' log')"
    using wrote_ticks [OF w(2), of k] by (simp add: n1 f)
  show "0 \<le> idx_slot (index log + 1 - snapshot_last_idx log)" by (rule w(3))
  show "wrote 0 ((idxfile log)\<lparr>pos := nat (idx_slot (index log + 1 - snapshot_last_idx log))\<rparr>)
           [word_of_nat (length (contents (file' log)))] (idxfile log')"
    using w(4) by (simp add: n1)
qed

section \<open>The represented log\<close>

lemma log_repD:
  assumes "log_rep log es"
  shows "append_mode (file' log)" "\<not> append_mode (idxfile log)"
    "contents (file' log) = header_bytes log @ concat (map entry_bytes es)"
    "length (contents (file' log)) < 2 ^ 63"
    "unat (snapshot_last_idx log) + length es < 2 ^ 64"
    "index log = snapshot_last_idx log + word_of_nat (length es)"
    "num_entries log = word_of_nat (length es)"
    "length (dbid log) \<le> RAFT_DBID_LEN"
    "es = [] \<or> length es < length (contents (idxfile log))"
    "\<And>k. k < length es \<Longrightarrow>
       contents (idxfile log) ! Suc k = word_of_nat (entry_offset log es k)"
  using assms by (auto simp: log_rep_def list_all_iff)

lemma length_entry_bytes_ge: "8 \<le> length (entry_bytes e)" "length (data e) \<le> length (entry_bytes e)"
  by (simp_all add: entry_bytes_parts length_element_bytes length_CRLF)

lemma length_entries_ge: "8 * length es \<le> length (concat (map entry_bytes es))"
proof (induction es)
  case Nil
  then show ?case by simp
next
  case (Cons e es)
  then show ?case using length_entry_bytes_ge(1) [of e] by simp
qed

lemma sint_of_nat64: "n < 2 ^ 63 \<Longrightarrow> sint (word_of_nat n :: 64 word) = int n"
  by (simp add: signed_of_nat signed_take_bit_int_eq_self)

lemma idx_slot_of_nat:
  assumes "8 * n < 2 ^ 63"
  shows "idx_slot (word_of_nat n) = int n"
proof -
  have e: "(8::64 word) * word_of_nat n = word_of_nat (8 * n)" by simp
  have "sint (word_of_nat (8 * n) :: 64 word) = int (8 * n)"
    using assms by (rule sint_of_nat64)
  then show ?thesis unfolding idx_slot_def e by simp
qed

lemma header_bytes_nonempty: "0 < length (header_bytes log)"
  by (simp add: length_header_bytes)

section \<open>Reading an entry of a represented log\<close>

lemma length_concat_take_le:
  "length (concat (map f (take k xs))) \<le> length (concat (map f xs))"
proof -
  have "concat (map f xs) = concat (map f (take k xs)) @ concat (map f (drop k xs))"
    by (metis append_take_drop_id concat_append map_append)
  then show ?thesis by simp
qed

lemma entry_offset_bound:
  assumes "log_rep log es"
  shows "entry_offset log es k \<le> length (contents (file' log))"
    and "entry_offset log es k < 2 ^ 63" and "0 < entry_offset log es k"
proof -
  note r = log_repD [OF assms]
  show le: "entry_offset log es k \<le> length (contents (file' log))"
    using length_concat_take_le [of entry_bytes k es] by (simp add: r(3) entry_offset_def)
  then show "entry_offset log es k < 2 ^ 63" using r(4) by simp
  show "0 < entry_offset log es k"
    using header_bytes_nonempty [of log] by (simp add: entry_offset_def)
qed

lemma drop_entry_offset:
  assumes "log_rep log es" and k: "k < length es"
  shows "drop (entry_offset log es k) (contents (file' log)) =
           entry_bytes (es ! k) @ concat (map entry_bytes (drop (Suc k) es))"
proof -
  note r = log_repD [OF assms(1)]
  have "es = take k es @ es ! k # drop (Suc k) es"
    using k by (simp add: id_take_nth_drop [symmetric])
  then have "concat (map entry_bytes es) =
      concat (map entry_bytes (take k es)) @ entry_bytes (es ! k) @
      concat (map entry_bytes (drop (Suc k) es))"
    by (metis append_Cons concat.simps(2) concat_append list.simps(9) map_append)
  then show ?thesis by (simp add: r(3) entry_offset_def)
qed

lemma rep_count:
  assumes "log_rep log es"
  shows "8 * length es < 2 ^ 63"
proof -
  note r = log_repD [OF assms]
  have "8 * length es \<le> length (contents (file' log))"
    using length_entries_ge [of es] by (simp add: r(3))
  then show ?thesis using r(4) by simp
qed

lemma rep_index_unat:
  assumes "log_rep log es" and "k \<le> length es"
  shows "unat (snapshot_last_idx log + word_of_nat k) = unat (snapshot_last_idx log) + k"
proof -
  note r = log_repD [OF assms(1)]
  have "k < 2 ^ 64" using r(5) assms(2) by simp
  then have "unat (word_of_nat k :: 64 word) = k" by (rule unat_of_nat64)
  then show ?thesis
    using r(5) assms(2) by (simp add: unat_add_lem [THEN iffD1])
qed

lemma seekEntry_rep:
  assumes rep: "log_rep log es" and k: "k < length es"
  shows "\<exists>log1. seekEntry log (snapshot_last_idx log + word_of_nat (Suc k)) =
                  (word_of_nat (entry_offset log es k), log1) \<and>
           log1 = log\<lparr>idxfile := idxfile log1,
                      file' := (file' log)\<lparr>pos := entry_offset log es k\<rparr>\<rparr>"
proof -
  note r = log_repD [OF rep]
  define i where "i = snapshot_last_idx log + word_of_nat (Suc k)"
  have ui: "unat i = unat (snapshot_last_idx log) + Suc k"
    using k unfolding i_def by (intro rep_index_unat [OF rep]) simp
  have ue: "unat (snapshot_last_idx log + num_entries log) = unat (snapshot_last_idx log) + length es"
    unfolding r(7) by (intro rep_index_unat [OF rep]) simp
  have c1: "\<not> i \<le> snapshot_last_idx log" using ui by (simp add: word_le_nat_alt)
  have c2: "\<not> snapshot_last_idx log + num_entries log < i"
    using ui ue k by (simp add: word_less_nat_alt)
  have rel: "i - snapshot_last_idx log = word_of_nat (Suc k)" by (simp add: i_def)
  have "8 * Suc k < 2 ^ 63" using rep_count [OF rep] k by simp
  then have sl: "idx_slot (word_of_nat (Suc k)) = int (Suc k)" by (rule idx_slot_of_nat)
  have lt: "Suc k < length (contents (idxfile log))" using r(9) k by auto
  have dr: "drop (Suc k) (contents (idxfile log)) =
      contents (idxfile log) ! Suc k # drop (Suc (Suc k)) (contents (idxfile log))"
    using lt by (simp add: Cons_nth_drop_Suc)
  have off: "contents (idxfile log) ! Suc k = word_of_nat (entry_offset log es k)"
    using r(10) [OF k] .
  have so: "sint (word_of_nat (entry_offset log es k) :: 64 word) = int (entry_offset log es k)"
    using entry_offset_bound(2) [OF rep] by (rule sint_of_nat64)
  show ?thesis
    unfolding i_def [symmetric]
    using c1 c2
    by (simp add: seekEntry_def Let_def rel sl fseek_def fread_def dr off so del: of_nat_Suc)
qed

lemma RaftLogGet_rep:
  assumes rep: "log_rep log es" and k: "k < length es"
  shows "\<exists>log2. RaftLogGet log (snapshot_last_idx log + word_of_nat (Suc k)) =
                  Some (Some (es ! k), log2)"
proof -
  note r = log_repD [OF rep]
  from seekEntry_rep [OF rep k] obtain log1
    where se: "seekEntry log (snapshot_last_idx log + word_of_nat (Suc k)) =
                 (word_of_nat (entry_offset log es k), log1)"
      and l1: "log1 = log\<lparr>idxfile := idxfile log1,
                          file' := (file' log)\<lparr>pos := entry_offset log es k\<rparr>\<rparr>"
    by blast
  have f1: "file' log1 = (file' log)\<lparr>pos := entry_offset log es k\<rparr>"
    by (subst l1) simp
  have so: "sint (word_of_nat (entry_offset log es k) :: 64 word) = int (entry_offset log es k)"
    using entry_offset_bound(2) [OF rep] by (rule sint_of_nat64)
  have pos: "\<not> sint (word_of_nat (entry_offset log es k) :: 64 word) \<le> 0"
    using entry_offset_bound(3) [OF rep, of k] by (simp add: so)
  have inp: "drop (pos (file' log1)) (contents (file' log1)) =
      record_bytes (entry_elements (es ! k)) @ concat (map entry_bytes (drop (Suc k) es))"
    using drop_entry_offset [OF rep k] by (simp add: f1 entry_bytes_def)
  have "length (entry_bytes (es ! k)) \<le> length (contents (file' log))"
    using drop_entry_offset [OF rep k]
    by (metis append_eq_conv_conj le_add1 length_append length_drop diff_le_self le_trans)
  then have "length (data (es ! k)) < 2 ^ 63"
    using length_entry_bytes_ge(2) [of "es ! k"] r(4) by simp
  then have els: "\<forall>el \<in> set (entry_elements (es ! k)). length el + 2 < 2 ^ 64"
    using length_dec_word64 [of "term' (es ! k)"] length_dec_word64 [of "ucast (id' (es ! k))"]
      length_dec_word64 [of "ucast (type' (es ! k))"]
    by (simp add: entry_elements_def fmt_lu_def)
  have rd: "readRawLogEntry (file' log1) =
      Some (Some \<lparr>num_elements = 5, elements = entry_elements (es ! k)\<rparr>,
            (file' log1)\<lparr>pos := pos (file' log1) + length (record_bytes (entry_elements (es ! k)))\<rparr>)"
    using readRawLogEntry_record [OF inp _ els] by (simp add: entry_elements_def)
  show ?thesis
    using pos by (simp add: RaftLogGet_def se rd parseRaftLogEntry_entry del: of_nat_Suc)
qed

section \<open>Appended entries are read back\<close>

lemma wrote_at:
  assumes "wrote z f xs g" and "\<not> append_mode f"
  defines "old \<equiv> contents f @ replicate (pos f - length (contents f)) z"
  shows "contents g = take (pos f) old @ xs @ drop (pos f + length xs) old"
    and "\<not> append_mode g"
  using assms by (auto simp: wrote_def put_def Let_def ticks_def)

lemma live_index:
  assumes rep: "log_rep log es" and lo: "snapshot_last_idx log < i" and hi: "i \<le> index log"
  shows "\<exists>k < length es. i = snapshot_last_idx log + word_of_nat (Suc k) \<and>
           unat (i - snapshot_last_idx log) - 1 = k"
proof -
  note r = log_repD [OF rep]
  have ui: "unat (index log) = unat (snapshot_last_idx log) + length es"
    unfolding r(6) by (intro rep_index_unat [OF rep]) simp
  define d where "d = unat (i - snapshot_last_idx log)"
  have lo': "unat (snapshot_last_idx log) < unat i" using lo by (simp add: word_less_nat_alt)
  have hi': "unat i \<le> unat (index log)" using hi by (simp add: word_le_nat_alt)
  have "snapshot_last_idx log \<le> i" using lo by simp
  then have d: "d = unat i - unat (snapshot_last_idx log)"
    unfolding d_def by (rule unat_sub)
  have d1: "0 < d" "d \<le> length es"
    using lo' hi' ui by (simp_all add: d)
  have i: "i = snapshot_last_idx log + word_of_nat d"
    by (simp add: d_def)
  have s: "Suc (d - 1) = d" using d1 by simp
  show ?thesis
  proof (intro exI [of _ "d - 1"] conjI)
    show "d - 1 < length es" using d1 by simp
    show "i = snapshot_last_idx log + word_of_nat (Suc (d - 1))" unfolding s by (rule i)
    show "unat (i - snapshot_last_idx log) - 1 = d - 1" by (simp add: d_def)
  qed
qed

lemma log_rep_append:
  assumes rep: "log_rep log es" and ap: "RaftLogAppend log e = (RR_OK, log')"
    and small: "length (data e) + 25 < 2 ^ 31"
    and room: "unat (index log) + 1 < 2 ^ 64"
      "length (contents (file' log)) + length (entry_bytes e) < 2 ^ 63"
  shows "log_rep log' (es @ [e])"
proof -
  note r = log_repD [OF rep]
  note a = RaftLogAppend_ok [OF ap small r(1)]
  define n where "n = length es"
  have fields: "dbid log' = dbid log" "snapshot_last_term log' = snapshot_last_term log"
    "snapshot_last_idx log' = snapshot_last_idx log" "log_term log' = log_term log"
    "vote log' = vote log" "index log' = index log + 1"
    "num_entries log' = num_entries log + 1"
    by (subst a(1), simp)+
  have hb: "header_bytes log' = header_bytes log"
    by (rule header_bytes_cong) (simp_all add: fields)
  note w = wrote_append_mode [OF a(2) r(1)]
  have c: "contents (file' log') = header_bytes log' @ concat (map entry_bytes (es @ [e]))"
    by (simp add: w(1) r(3) hb)
  have len: "length (contents (file' log')) < 2 ^ 63"
    using room(2) by (simp add: w(1))
  have ui: "unat (index log) = unat (snapshot_last_idx log) + n"
    unfolding r(6) n_def by (intro rep_index_unat [OF rep]) simp
  have cnt: "8 * Suc n < 2 ^ 63"
  proof -
    have "8 * length (es @ [e]) \<le> length (concat (map entry_bytes (es @ [e])))"
      by (rule length_entries_ge)
    also have "\<dots> \<le> length (contents (file' log'))" by (simp add: c)
    finally show ?thesis using len by (simp add: n_def)
  qed
  have rel: "index log + 1 - snapshot_last_idx log = word_of_nat (Suc n)"
    by (simp add: r(6) n_def)
  have sl: "nat (idx_slot (index log + 1 - snapshot_last_idx log)) = Suc n"
    unfolding rel idx_slot_of_nat [OF cnt] by simp
  define c0 where "c0 = contents (idxfile log)"
  define old where "old = c0 @ replicate (Suc n - length c0) (0::64 word)"
  define off :: "64 word" where "off = word_of_nat (length (contents (file' log)))"
  have x: "contents (idxfile log') = take (Suc n) old @ [off] @ drop (Suc n + 1) old"
    and xm: "\<not> append_mode (idxfile log')"
    using wrote_at [OF a(4) [unfolded sl]] r(2) by (simp_all add: old_def c0_def off_def)
  have lo: "Suc n \<le> length old" by (simp add: old_def)
  have xl: "Suc n < length (contents (idxfile log'))" using lo by (simp add: x)
  have xn: "contents (idxfile log') ! Suc n = off"
    using lo by (simp add: x nth_append)
  have xk: "contents (idxfile log') ! Suc k = c0 ! Suc k" if "k < n" for k
  proof -
    have "Suc k < length c0" using that r(9) by (auto simp: n_def c0_def)
    then show ?thesis using that lo by (simp add: x nth_append old_def)
  qed
  have slots: "contents (idxfile log') ! Suc k = word_of_nat (entry_offset log' (es @ [e]) k)"
    if "k < Suc n" for k
  proof (cases "k < n")
    case True
    then have "entry_offset log' (es @ [e]) k = entry_offset log es k"
      by (simp add: entry_offset_def hb n_def)
    then show ?thesis using xk [OF True] r(10) [of k] True by (simp add: c0_def n_def)
  next
    case False
    with that have k: "k = n" by simp
    have "entry_offset log' (es @ [e]) n = length (contents (file' log))"
      by (simp add: entry_offset_def hb n_def r(3))
    then show ?thesis by (simp add: k xn off_def)
  qed
  show ?thesis
    unfolding log_rep_def
    using w(3) xm c len room(1) ui xl r(8) slots
    by (simp add: fields r(6,7) n_def [symmetric] list_all_iff)
qed

text \<open>
  Claim C1. When \<open>RaftLogAppend\<close> of an entry succeeds on a log that holds the entries \<open>es\<close>, the
  log holds \<open>es @ [e]\<close> afterwards, the new entry has the index \<open>index + 1\<close>, and for every
  index of the live range \<open>RaftLogGet\<close>, which reads the log file through the index file, returns
  the entry that was appended at that index, with its term, id, type and data. (The entry and the
  file have the sizes of a real log: the data is shorter than 2 GB, offsets fit into an
  \<^verbatim>\<open>off64_t\<close>, the index does not wrap.)
\<close>

theorem append_get_roundtrip:
  assumes rep: "log_rep log es" and ap: "RaftLogAppend log e = (RR_OK, log')"
    and small: "length (data e) + 25 < 2 ^ 31"
    and room: "unat (index log) + 1 < 2 ^ 64"
      "length (contents (file' log)) + length (entry_bytes e) < 2 ^ 63"
  shows "log_rep log' (es @ [e]) \<and> index log' = index log + 1 \<and>
         entry_at log' (es @ [e]) (index log') = e \<and>
         (\<forall>i. snapshot_last_idx log' < i \<and> i \<le> index log' \<longrightarrow>
            (\<exists>log2. RaftLogGet log' i = Some (Some (entry_at log' (es @ [e]) i), log2)))"
proof -
  have rep': "log_rep log' (es @ [e])"
    using rep ap small room by (rule log_rep_append)
  note r = log_repD [OF rep] and r' = log_repD [OF rep']
  have snap: "snapshot_last_idx log' = snapshot_last_idx log"
    by (subst RaftLogAppend_ok(1) [OF ap small r(1)]) simp
  have idx: "index log' = index log + 1"
    by (subst RaftLogAppend_ok(1) [OF ap small r(1)]) simp
  have "unat (index log' - snapshot_last_idx log') = Suc (length es)"
  proof -
    have "index log' - snapshot_last_idx log' = word_of_nat (Suc (length es))"
      by (simp add: r'(6))
    moreover have "Suc (length es) < 2 ^ 64" using r'(5) by simp
    ultimately show ?thesis by (simp only: unat_of_nat64)
  qed
  then have last: "entry_at log' (es @ [e]) (index log') = e"
    by (simp add: entry_at_def)
  have get: "\<exists>log2. RaftLogGet log' i = Some (Some (entry_at log' (es @ [e]) i), log2)"
    if "snapshot_last_idx log' < i" "i \<le> index log'" for i
  proof -
    from live_index [OF rep' that] obtain k where k: "k < length (es @ [e])"
      and i: "i = snapshot_last_idx log' + word_of_nat (Suc k)"
      and e: "unat (i - snapshot_last_idx log') - 1 = k"
      by blast
    from RaftLogGet_rep [OF rep' k] show ?thesis
      unfolding entry_at_def e i [symmetric] .
  qed
  from rep' idx last get show ?thesis by blast
qed

section \<open>Operations when nothing fails\<close>

lemma nf_ftruncate:
  "faults f = [] \<Longrightarrow>
   ftruncate z f n = (0, f\<lparr>contents := take n (contents f) @ replicate (n - length (contents f)) z\<rparr>)"
  by (simp add: ftruncate_def take_fault_none)

lemma nf_reopen: "faults f = [] \<Longrightarrow> reopen f app = Some (f\<lparr>pos := 0, append_mode := app\<rparr>)"
  by (simp add: reopen_def take_fault_none)

lemma length_c_str_le: "length (c_str s) \<le> length s"
  by (simp add: c_str_def length_takeWhile_le)

lemma RaftLogCreate_rep:
  "\<exists>log. RaftLogCreate disk [] [] dbid0 t i = Some log \<and> log_rep log [] \<and>
         snapshot_last_idx log = i \<and> snapshot_last_term log = t \<and> log_term log = 1 \<and>
         vote log = - 1 \<and> num_entries log = 0 \<and>
         faults (file' log) = [] \<and> faults (idxfile log) = []"
proof -
  define l0 where "l0 = (prepareLog disk [] [])\<lparr>index := i, snapshot_last_idx := i,
    snapshot_last_term := t, log_term := 1, vote := - 1,
    dbid := c_str (take RAFT_DBID_LEN dbid0)\<rparr>"
  define F0 where "F0 = (file' l0)\<lparr>contents := []\<rparr>"
  define X0 where "X0 = (idxfile l0)\<lparr>contents := []\<rparr>"
  define log1 where "log1 = l0\<lparr>file' := F0, idxfile := X0\<rparr>"
  define log2 where "log2 = log1\<lparr>file' := put NUL (header_bytes log1) (file' log1)\<rparr>"
  have e1: "ftruncate NUL (file' l0) 0 = (0, F0)"
    by (simp add: nf_ftruncate l0_def prepareLog_def F0_def)
  have e2: "ftruncate 0 (idxfile l0) 0 = (0, X0)"
    by (simp add: nf_ftruncate l0_def prepareLog_def X0_def)
  have db: "length (dbid log1) \<le> RAFT_DBID_LEN"
    using length_c_str_le [of "take RAFT_DBID_LEN dbid0"] by (simp add: log1_def l0_def)
  then have small: "length (dbid log1) + 25 < 2 ^ 31" by (simp add: RAFT_DBID_LEN_def)
  have nf: "faults (file' log1) = []"
    by (simp add: log1_def F0_def l0_def prepareLog_def)
  note e3 = nf_writeLogHeader [OF nf small]
  have cr: "RaftLogCreate disk [] [] dbid0 t i = Some log2"
    unfolding RaftLogCreate_def Let_def l0_def [symmetric] e1 e2 prod.case log1_def [symmetric] e3
    by (simp add: log2_def)
  have hb: "header_bytes log2 = header_bytes log1"
    by (rule header_bytes_cong) (simp_all add: log2_def)
  have "length (header_bytes log1) < 2 ^ 63"
    using db length_dec_le [of "length (dbid log1)" 2]
    by (simp add: length_header_bytes RAFT_DBID_LEN_def)
  moreover have "unat i < 2 ^ 64" using unsigned_less [of i, where ?'a = nat] by simp
  ultimately have "log_rep log2 []"
    using db
    by (simp add: log_rep_def hb)
      (simp add: log2_def put_def log1_def F0_def X0_def l0_def prepareLog_def)
  moreover have "snapshot_last_idx log2 = i \<and> snapshot_last_term log2 = t \<and> log_term log2 = 1 \<and>
         vote log2 = - 1 \<and> num_entries log2 = 0 \<and>
         faults (file' log2) = [] \<and> faults (idxfile log2) = []"
    by (simp add: log2_def log1_def F0_def X0_def l0_def prepareLog_def faults_put)
  ultimately show ?thesis using cr by blast
qed

lemma nf_updateIndex:
  assumes "faults (idxfile log) = []" and "0 \<le> idx_slot (idx - snapshot_last_idx log)"
  shows "updateIndex log idx off =
           (0, log\<lparr>idxfile := put 0 [off]
                 ((idxfile log)\<lparr>pos := nat (idx_slot (idx - snapshot_last_idx log))\<rparr>)\<rparr>)"
  using assms by (simp add: updateIndex_def Let_def fseek_def nf_fwrite)

lemma nf_RaftLogAppend:
  assumes nf: "faults (file' log) = []" "faults (idxfile log) = []"
    and small: "length (data e) + 25 < 2 ^ 31"
    and slot: "0 \<le> idx_slot (index log + 1 - snapshot_last_idx log)"
  shows "\<exists>log'. RaftLogAppend log e = (RR_OK, log') \<and>
           faults (file' log') = [] \<and> faults (idxfile log') = []"
proof -
  have l5: "length ''ENTRY'' = 5" by simp
  have wb: "writeBuffer g ''ENTRY'' 5 =
      (int (length (element_bytes ''ENTRY'')), put NUL (element_bytes ''ENTRY'') g)"
    if "faults g = []" for g
    using nf_writeBuffer [OF that, of "''ENTRY''", unfolded l5] by simp
  note unf = RaftLogWriteEntry_def nf nf_writeBegin wb nf_writeUnsignedInteger
    nf_writeBuffer [OF _ small] data_len_def faults_put put_put Let_def nf_updateIndex
  obtain st log1 where we: "RaftLogWriteEntry log e = (st, log1)" by force
  have "fst (RaftLogWriteEntry log e) = RR_OK"
    using slot by (simp add: unf)
  moreover have "faults (file' (snd (RaftLogWriteEntry log e))) = []"
    using slot by (simp add: unf)
  moreover have "faults (idxfile (snd (RaftLogWriteEntry log e))) = []"
    using slot by (simp add: unf)
  ultimately have "st = RR_OK" "faults (file' log1) = []" "faults (idxfile log1) = []"
    by (simp_all add: we)
  then show ?thesis
    by (simp add: RaftLogAppend_def we nf_writeEnd)
qed

lemma nf_updateLogHeader:
  assumes "faults (file' log) = []" and "length (dbid log) \<le> RAFT_DBID_LEN"
  shows "\<exists>log'. updateLogHeader log = Some (0, log') \<and> faults (file' log') = [] \<and>
           faults (idxfile log') = faults (idxfile log)"
proof -
  have small: "length (dbid log) + 25 < 2 ^ 31"
    using assms(2) by (simp add: RAFT_DBID_LEN_def)
  show ?thesis
    using assms(1)
    by (simp add: updateLogHeader_def nf_reopen nf_writeLogHeader [OF _ small] faults_put)
qed

lemma nf_RaftLogSetTerm:
  assumes "faults (file' log) = []" and "length (dbid log) \<le> RAFT_DBID_LEN"
  shows "\<exists>log'. RaftLogSetTerm log t v = Some (RR_OK, log') \<and> faults (file' log') = []"
proof -
  from nf_updateLogHeader [of "log\<lparr>log_term := t, vote := v\<rparr>"] assms
  obtain log' where "updateLogHeader (log\<lparr>log_term := t, vote := v\<rparr>) = Some (0, log')"
    and "faults (file' log') = []"
    by auto
  then show ?thesis by (simp add: RaftLogSetTerm_def)
qed

lemma nf_RaftLogSetVote:
  assumes "faults (file' log) = []" and "length (dbid log) \<le> RAFT_DBID_LEN"
  shows "\<exists>log'. RaftLogSetVote log v = Some (RR_OK, log') \<and> faults (file' log') = []"
proof -
  from nf_updateLogHeader [of "log\<lparr>vote := v\<rparr>"] assms
  obtain log' where "updateLogHeader (log\<lparr>vote := v\<rparr>) = Some (0, log')"
    and "faults (file' log') = []"
    by auto
  then show ?thesis by (simp add: RaftLogSetVote_def)
qed

lemma length_entry_bytes_le:
  assumes "length (data e) + 25 < 2 ^ 31"
  shows "length (entry_bytes e) \<le> length (data e) + 120"
proof -
  have d: "length (dec (length (data e))) \<le> 10"
    using assms by (intro length_dec_le) simp_all
  have l: "length (dec (length (dec (unat v)))) \<le> 2" for v :: "64 word"
    using length_dec_word64 [of v] by (intro length_dec_small) simp
  show ?thesis
    using d length_dec_word64 [of "term' e"] length_dec_word64 [of "ucast (id' e)"]
      length_dec_word64 [of "ucast (type' e)"]
      l [of "term' e"] l [of "ucast (id' e)"] l [of "ucast (type' e)"]
    by (simp add: entry_bytes_parts length_element_bytes length_CRLF fmt_lu_def
        length_dec_digit)
qed

section \<open>A fresh log and a log with one entry\<close>

lemma fresh_log_props:
  shows "RaftLogCreate [] [] [] demo_dbid 0 0 = Some fresh_log" and "log_rep fresh_log []"
    and "snapshot_last_idx fresh_log = 0" and "index fresh_log = 0"
    and "num_entries fresh_log = 0"
    and "faults (file' fresh_log) = []" and "faults (idxfile fresh_log) = []"
    and "length (contents (file' fresh_log)) \<le> 165"
proof -
  from RaftLogCreate_rep [of "[]" demo_dbid 0 0]
  obtain log where cr: "RaftLogCreate [] [] [] demo_dbid 0 0 = Some log"
    and p: "log_rep log []" "snapshot_last_idx log = 0" "num_entries log = 0"
      "faults (file' log) = []" "faults (idxfile log) = []"
    by blast
  have fl: "fresh_log = log" by (simp add: fresh_log_def cr)
  note r = log_repD [OF p(1)]
  show "RaftLogCreate [] [] [] demo_dbid 0 0 = Some fresh_log" by (simp add: fl cr)
  show "log_rep fresh_log []" "snapshot_last_idx fresh_log = 0" "num_entries fresh_log = 0"
    "faults (file' fresh_log) = []" "faults (idxfile fresh_log) = []"
    by (simp_all add: fl p)
  show "index fresh_log = 0" using r(6) by (simp add: fl p)
  have "length (dec (length (dbid log))) \<le> 2"
    using r(8) by (intro length_dec_le) (simp_all add: RAFT_DBID_LEN_def)
  then show "length (contents (file' fresh_log)) \<le> 165"
    using r(8) by (simp add: fl r(3) length_header_bytes RAFT_DBID_LEN_def)
qed

lemma demo_entry_small: "length (data demo_entry) + 25 < 2 ^ 31"
  by (simp add: demo_entry_def)

lemma one_entry_log_props:
  shows "RaftLogAppend fresh_log demo_entry = (RR_OK, one_entry_log)"
    and "log_rep one_entry_log [demo_entry]"
    and "snapshot_last_idx one_entry_log = 0" and "index one_entry_log = 1"
    and "num_entries one_entry_log = 1"
    and "faults (file' one_entry_log) = []" and "faults (idxfile one_entry_log) = []"
proof -
  note f = fresh_log_props
  have slot: "0 \<le> idx_slot (index fresh_log + 1 - snapshot_last_idx fresh_log)"
    by (simp add: f idx_slot_def)
  from nf_RaftLogAppend [OF f(6,7) demo_entry_small slot]
  obtain log' where ap: "RaftLogAppend fresh_log demo_entry = (RR_OK, log')"
    and nf: "faults (file' log') = []" "faults (idxfile log') = []"
    by blast
  have ol: "one_entry_log = log'" by (simp add: one_entry_log_def ap)
  have room: "unat (index fresh_log) + 1 < 2 ^ 64"
    "length (contents (file' fresh_log)) + length (entry_bytes demo_entry) < 2 ^ 63"
    using f(8) length_entry_bytes_le [OF demo_entry_small]
    by (simp_all add: f(4) demo_entry_def)
  from log_rep_append [OF f(2) ap demo_entry_small room]
  have rep: "log_rep log' [demo_entry]" by simp
  note a = RaftLogAppend_ok [OF ap demo_entry_small log_repD(1) [OF f(2)]]
  show "RaftLogAppend fresh_log demo_entry = (RR_OK, one_entry_log)" by (simp add: ol ap)
  show "log_rep one_entry_log [demo_entry]" by (simp add: ol rep)
  show "snapshot_last_idx one_entry_log = 0" by (subst ol, subst a(1)) (simp add: f)
  show "index one_entry_log = 1" by (subst ol, subst a(1)) (simp add: f)
  show "num_entries one_entry_log = 1" by (subst ol, subst a(1)) (simp add: f)
  show "faults (file' one_entry_log) = []" "faults (idxfile one_entry_log) = []"
    by (simp_all add: ol nf)
qed

text \<open>The round trip at the first append to a log that was just created.\<close>

theorem append_get_roundtrip_witness:
  "log_rep fresh_log [] \<and> RaftLogAppend fresh_log demo_entry = (RR_OK, one_entry_log) \<and>
   index one_entry_log = 1 \<and>
   (\<exists>log2. RaftLogGet one_entry_log 1 = Some (Some demo_entry, log2))"
proof -
  note f = fresh_log_props and o = one_entry_log_props
  have room: "unat (index fresh_log) + 1 < 2 ^ 64"
    "length (contents (file' fresh_log)) + length (entry_bytes demo_entry) < 2 ^ 63"
    using f(8) length_entry_bytes_le [OF demo_entry_small]
    by (simp_all add: f(4) demo_entry_def)
  from append_get_roundtrip [OF f(2) o(1) demo_entry_small room]
  have e: "entry_at one_entry_log ([] @ [demo_entry]) (index one_entry_log) = demo_entry"
    and g: "\<And>i. snapshot_last_idx one_entry_log < i \<Longrightarrow> i \<le> index one_entry_log \<Longrightarrow>
      \<exists>log2. RaftLogGet one_entry_log i =
        Some (Some (entry_at one_entry_log ([] @ [demo_entry]) i), log2)"
    by blast+
  from g [of 1] e have "\<exists>log2. RaftLogGet one_entry_log 1 = Some (Some demo_entry, log2)"
    by (simp add: o)
  with f(2) o(1,4) show ?thesis by blast
qed

text \<open>The header of a log with one entry is rewritten by \<open>RaftLogSetTerm\<close>.\<close>

theorem header_rewrite_in_place_witness:
  "length (header_bytes one_entry_log) \<le> length (contents (file' one_entry_log)) \<and>
   length (dbid one_entry_log) \<le> RAFT_DBID_LEN \<and>
   (\<exists>log'. RaftLogSetTerm one_entry_log 7 3 = Some (RR_OK, log') \<and>
      length (contents (file' log')) = length (contents (file' one_entry_log)) \<and>
      drop (length (header_bytes one_entry_log)) (contents (file' log')) =
        entry_bytes demo_entry)"
proof -
  note o = one_entry_log_props
  note r = log_repD [OF o(2)]
  have fits: "length (header_bytes one_entry_log) \<le> length (contents (file' one_entry_log))"
    by (simp add: r(3))
  from nf_RaftLogSetTerm [OF o(6) r(8), of 7 3]
  obtain log' where st: "RaftLogSetTerm one_entry_log 7 3 = Some (RR_OK, log')" by blast
  from header_rewrite_in_place [OF fits r(8) _ st, of 7 3]
  have "length (contents (file' log')) = length (contents (file' one_entry_log))"
    and "drop (length (header_bytes one_entry_log)) (contents (file' log')) =
      drop (length (header_bytes one_entry_log)) (contents (file' one_entry_log))"
    by simp_all
  with fits r(8) st show ?thesis by (simp add: r(3))
qed

section \<open>Reset and the count of entries\<close>

lemma RaftLogReset_fields:
  "index (snd (RaftLogReset log i t)) = i \<and>
   snapshot_last_idx (snd (RaftLogReset log i t)) = i \<and>
   num_entries (snd (RaftLogReset log i t)) = num_entries log"
  by (simp add: RaftLogReset_def Let_def split: prod.splits)

lemma cache_contract_new: "cache_contract (EntryCacheNew ENTRY_CACHE_INIT_SIZE)"
  by (simp add: cache_contract_def ring_contract_def EntryCacheNew_def ENTRY_CACHE_INIT_SIZE_def
      sizeof_ptr_def)

lemma one_entry_ctx_props:
  shows "logImplAppend (\<lambda>_. None) fresh_ctx demo_entry = Some (0, one_entry_ctx)"
    and "rr_log one_entry_ctx = one_entry_log"
    and "cache_contract (rr_logcache one_entry_ctx)"
    and "EntryCacheGet (rr_logcache one_entry_ctx) 1 = Some (Some demo_entry)"
proof -
  have new: "len (EntryCacheNew ENTRY_CACHE_INIT_SIZE) = 0"
    "size' (EntryCacheNew ENTRY_CACHE_INIT_SIZE) = 512"
    by (simp_all add: EntryCacheNew_def ENTRY_CACHE_INIT_SIZE_def)
  have h1: "(1::raft_index_t) \<noteq> 0" by simp
  have h2: "len (EntryCacheNew ENTRY_CACHE_INIT_SIZE) \<noteq> 0 \<longrightarrow>
      1 = start_idx (EntryCacheNew ENTRY_CACHE_INIT_SIZE) + len (EntryCacheNew ENTRY_CACHE_INIT_SIZE)"
    by (simp add: new)
  have h3: "len (EntryCacheNew ENTRY_CACHE_INIT_SIZE) = size' (EntryCacheNew ENTRY_CACHE_INIT_SIZE) \<longrightarrow>
      unat (size' (EntryCacheNew ENTRY_CACHE_INIT_SIZE)) * 16 < 2 ^ 64"
    by (simp add: new)
  from EntryCacheAppend_result [OF cache_contract_new h1 h2 h3, of "\<lambda>_. None" demo_entry]
  obtain c' where ap: "EntryCacheAppend (\<lambda>_. None) (EntryCacheNew ENTRY_CACHE_INIT_SIZE) demo_entry 1 = Some c'"
    and c': "cache_contract c'" "EntryCacheGet c' 1 = Some (Some demo_entry)"
    by blast
  have la: "logImplAppend (\<lambda>_. None) fresh_ctx demo_entry =
      Some (0, fresh_ctx\<lparr>rr_log := one_entry_log, rr_logcache := c'\<rparr>)"
    by (simp add: logImplAppend_def fresh_ctx_def one_entry_log_props(1,4) ap)
  then have eq: "one_entry_ctx = fresh_ctx\<lparr>rr_log := one_entry_log, rr_logcache := c'\<rparr>"
    by (simp add: one_entry_ctx_def)
  show "logImplAppend (\<lambda>_. None) fresh_ctx demo_entry = Some (0, one_entry_ctx)"
    by (simp add: la eq)
  show "rr_log one_entry_ctx = one_entry_log" "cache_contract (rr_logcache one_entry_ctx)"
    "EntryCacheGet (rr_logcache one_entry_ctx) 1 = Some (Some demo_entry)"
    by (simp_all add: eq c')
qed

lemma logImplReset_log:
  "rr_log (logImplReset rr i t) = snd (RaftLogReset (rr_log rr) i t)"
  by (simp add: logImplReset_def split: prod.splits)

text \<open>
  Claim C2: after every operation of the interface that returns, also \<^verbatim>\<open>reset\<close>,
  \<open>num_entries = index - snapshot_last_idx\<close>. The other operations that write both sides of the
  equation keep it (\<open>log_rep\<close> has it, and \<open>seekEntry\<close> needs it), but \<^verbatim>\<open>RaftLogReset\<close> sets
  \<open>index\<close> and \<open>snapshot_last_idx\<close>, empties both files, and never writes \<open>num_entries\<close>. So: a new
  log, one entry appended (the equation holds before and after), then \<^verbatim>\<open>reset\<close> to index 0, which
  succeeds; the count is still 1 and \<open>index - snapshot_last_idx\<close> is 0.
\<close>

theorem reset_leaves_stale_count:
  "logImplCount fresh_ctx = logImplCurrentIdx fresh_ctx - logImplFirstIdx fresh_ctx \<and>
   logImplAppend (\<lambda>_. None) fresh_ctx demo_entry = Some (0, one_entry_ctx) \<and>
   logImplCount one_entry_ctx = logImplCurrentIdx one_entry_ctx - logImplFirstIdx one_entry_ctx \<and>
   fst (RaftLogReset (rr_log one_entry_ctx) 0 0) = RR_OK \<and>
   logImplCount (logImplReset one_entry_ctx 0 0) = 1 \<and>
   logImplCurrentIdx (logImplReset one_entry_ctx 0 0) -
     logImplFirstIdx (logImplReset one_entry_ctx 0 0) = 0"
proof -
  have a: "logImplCount fresh_ctx = logImplCurrentIdx fresh_ctx - logImplFirstIdx fresh_ctx"
    by (simp add: logImplCount_def logImplCurrentIdx_def logImplFirstIdx_def RaftLogCount_def
        RaftLogCurrentIdx_def RaftLogFirstIdx_def fresh_ctx_def fresh_log_props)
  have b: "logImplCount one_entry_ctx = logImplCurrentIdx one_entry_ctx - logImplFirstIdx one_entry_ctx"
    by (simp add: logImplCount_def logImplCurrentIdx_def logImplFirstIdx_def RaftLogCount_def
        RaftLogCurrentIdx_def RaftLogFirstIdx_def one_entry_ctx_props one_entry_log_props)
  note r = log_repD [OF one_entry_log_props(2)]
  have small: "length (dbid one_entry_log) + 25 < 2 ^ 31"
    using r(8) by (simp add: RAFT_DBID_LEN_def)
  have ok: "fst (RaftLogReset (rr_log one_entry_ctx) 0 0) = RR_OK"
    using small
    by (simp add: RaftLogReset_def Let_def one_entry_ctx_props(2) nf_ftruncate
        one_entry_log_props nf_writeLogHeader)
  have c: "logImplCount (logImplReset one_entry_ctx 0 0) = 1"
    by (simp add: logImplCount_def RaftLogCount_def logImplReset_log RaftLogReset_fields
        one_entry_ctx_props(2) one_entry_log_props)
  have d: "logImplCurrentIdx (logImplReset one_entry_ctx 0 0) -
     logImplFirstIdx (logImplReset one_entry_ctx 0 0) = 0"
    by (simp add: logImplCurrentIdx_def logImplFirstIdx_def RaftLogCurrentIdx_def
        RaftLogFirstIdx_def logImplReset_log RaftLogReset_fields)
  from a one_entry_ctx_props(1) b ok c d show ?thesis by blast
qed

section \<open>An append that fails\<close>

lemma index_fault_log_fields:
  shows "faults (file' index_fault_log) = []" and "index index_fault_log = 1"
    and "num_entries index_fault_log = 1" and "snapshot_last_idx index_fault_log = 0"
    and "faults (idxfile index_fault_log) = [True]"
  by (simp_all add: index_fault_log_def one_entry_log_props)

lemma updateIndex_fault:
  assumes "faults (idxfile log) = True # fs"
  shows "fst (updateIndex log idx off) = - 1"
  using assms
  by (simp add: updateIndex_def Let_def fseek_def fwrite_def take_fault_def split: prod.splits)

lemma updateIndex_fields:
  "index (snd (updateIndex log idx off)) = index log \<and>
   num_entries (snd (updateIndex log idx off)) = num_entries log \<and>
   snapshot_last_idx (snd (updateIndex log idx off)) = snapshot_last_idx log \<and>
   file' (snd (updateIndex log idx off)) = file' log"
  by (simp add: updateIndex_def Let_def split: prod.splits)

lemma RaftLogWriteEntry_index_fault:
  assumes nf: "faults (file' log) = []" and xf: "faults (idxfile log) = True # fs"
    and small: "length (data e) + 25 < 2 ^ 31"
  shows "fst (RaftLogWriteEntry log e) = RR_ERROR"
    and "index (snd (RaftLogWriteEntry log e)) = index log + 1"
    and "num_entries (snd (RaftLogWriteEntry log e)) = num_entries log"
proof -
  have l5: "length ''ENTRY'' = 5" by simp
  have wb: "writeBuffer g ''ENTRY'' 5 =
      (int (length (element_bytes ''ENTRY'')), put NUL (element_bytes ''ENTRY'') g)"
    if "faults g = []" for g
    using nf_writeBuffer [OF that, of "''ENTRY''", unfolded l5] by simp
  note unf = RaftLogWriteEntry_def nf nf_writeBegin wb nf_writeUnsignedInteger
    nf_writeBuffer [OF _ small] data_len_def faults_put put_put Let_def case_prod_beta
    updateIndex_fields
  show "fst (RaftLogWriteEntry log e) = RR_ERROR"
    by (simp add: unf xf updateIndex_fault [where fs = fs])
  show "index (snd (RaftLogWriteEntry log e)) = index log + 1"
    by (simp add: unf xf updateIndex_fault [where fs = fs])
  show "num_entries (snd (RaftLogWriteEntry log e)) = num_entries log"
    by (simp add: unf xf updateIndex_fault [where fs = fs])
qed

lemma RaftLogWriteEntry_count:
  "num_entries (snd (RaftLogWriteEntry log e)) = num_entries log \<and>
   snapshot_last_idx (snd (RaftLogWriteEntry log e)) = snapshot_last_idx log"
  by (simp add: RaftLogWriteEntry_def Let_def case_prod_beta updateIndex_fields)

lemma RaftLogAppend_error_count:
  "fst (RaftLogAppend log e) = RR_ERROR \<Longrightarrow>
   num_entries (snd (RaftLogAppend log e)) = num_entries log"
  by (simp add: RaftLogAppend_def Let_def case_prod_beta RaftLogWriteEntry_count split: if_splits)

lemma RaftLogAppend_ok_count:
  "fst (RaftLogAppend log e) = RR_OK \<Longrightarrow>
   num_entries (snd (RaftLogAppend log e)) = num_entries log + 1 \<and>
   index (snd (RaftLogAppend log e)) = index log + 1 \<and>
   snapshot_last_idx (snd (RaftLogAppend log e)) = snapshot_last_idx log"
  by (simp add: RaftLogAppend_def RaftLogWriteEntry_def Let_def case_prod_beta updateIndex_fields split: if_splits)

text \<open>
  Claim C4: when an append returns an error, \<open>index\<close> and \<open>num_entries\<close> are what they were. In
  \<^verbatim>\<open>RaftLogWriteEntry\<close> the increment of \<open>index\<close> comes before the call of \<open>updateIndex\<close>, whose
  failure is an error of the append; \<open>num_entries\<close> is incremented after the last step that can
  fail. So: the log with one entry, the write to the index file fails; the append returns
  \<^verbatim>\<open>RR_ERROR\<close>, \<open>num_entries\<close> is unchanged and \<open>index\<close> is one more than it was.
\<close>

theorem failed_append_advances_index:
  "fst (RaftLogAppend index_fault_log demo_entry) = RR_ERROR \<and>
   index (snd (RaftLogAppend index_fault_log demo_entry)) = index index_fault_log + 1 \<and>
   num_entries (snd (RaftLogAppend index_fault_log demo_entry)) = num_entries index_fault_log"
proof -
  have small: "length (data demo_entry) + 25 < 2 ^ 31" by (simp add: demo_entry_def)
  note w = RaftLogWriteEntry_index_fault [OF index_fault_log_fields(1,5) small]
  obtain st log1 where we: "RaftLogWriteEntry index_fault_log demo_entry = (st, log1)" by force
  from w have "st = RR_ERROR" "index log1 = index index_fault_log + 1"
    "num_entries log1 = num_entries index_fault_log"
    by (simp_all add: we)
  then show ?thesis by (simp add: RaftLogAppend_def we)
qed

section \<open>Poll\<close>

lemma EntryCacheDeleteHead_miss:
  assumes c: "cache_contract c"
  shows "\<exists>d c'. EntryCacheDeleteHead c k = Some (d, c') \<and> cache_contract c' \<and>
           (\<forall>j. j < k \<longrightarrow> EntryCacheGet c' j = Some None)"
proof (cases "k < start_idx c")
  case True
  then have "EntryCacheDeleteHead c k = Some (- 1, c)"
    by (simp add: EntryCacheDeleteHead_def)
  moreover have "EntryCacheGet c j = Some None" if "j < k" for j
  proof -
    from that True have "j < start_idx c" by (rule less_trans)
    then show ?thesis by (simp add: EntryCacheGet_def)
  qed
  ultimately show ?thesis using c by blast
next
  case False
  then have "start_idx c \<le> k" by simp
  from EntryCacheDeleteHead_result [OF c this] show ?thesis by blast
qed

lemma logImplPoll_result:
  assumes c: "cache_contract (rr_logcache rr)"
  shows "\<exists>rr'. logImplPoll rr k = Some (0, rr') \<and> rr_log rr' = rr_log rr \<and>
           cache_contract (rr_logcache rr') \<and>
           (\<forall>j. j < k \<longrightarrow> EntryCacheGet (rr_logcache rr') j = Some None)"
proof -
  from EntryCacheDeleteHead_miss [OF c, of k] obtain d c'
    where dh: "EntryCacheDeleteHead (rr_logcache rr) k = Some (d, c')"
      and c': "cache_contract c'" "\<forall>j. j < k \<longrightarrow> EntryCacheGet c' j = Some None"
    by blast
  have "logImplPoll rr k = Some (0, rr\<lparr>rr_logcache := c'\<rparr>)"
    by (simp add: logImplPoll_def dh)
  with c' show ?thesis by simp
qed

lemma logImplGet_miss:
  assumes "EntryCacheGet (rr_logcache rr) j = Some None"
  shows "logImplGet rr j =
           (case RaftLogGet (rr_log rr) j of
              None \<Rightarrow> None
            | Some (e, log) \<Rightarrow> Some (e, rr\<lparr>rr_log := log\<rparr>))"
  using assms by (simp add: logImplGet_def split: option.splits)

text \<open>
  Claim C3 says that \<^verbatim>\<open>poll\<close> with \<open>first_idx < k \<le> current_idx + 1\<close> makes \<open>first_idx = k\<close> and
  that afterwards \<^verbatim>\<open>get\<close> returns nothing below \<open>k\<close>. \<^verbatim>\<open>logImplPoll\<close> calls \<^verbatim>\<open>EntryCacheDeleteHead\<close>
  and nothing else. In the context with one entry, \<^verbatim>\<open>poll\<close> with 2 returns 0, \<open>first_idx\<close> is still 0, and
  \<^verbatim>\<open>get\<close> of index 1 returns the entry, which it reads from the log file.
\<close>

theorem poll_does_not_advance_first_idx:
  "logImplFirstIdx one_entry_ctx < 2 \<and> 2 \<le> logImplCurrentIdx one_entry_ctx + 1 \<and>
   (\<exists>rr'. logImplPoll one_entry_ctx 2 = Some (0, rr') \<and> logImplFirstIdx rr' \<noteq> 2 \<and>
      (\<exists>rr''. logImplGet rr' 1 = Some (Some demo_entry, rr'')))"
proof -
  from logImplPoll_result [OF one_entry_ctx_props(3), of 2] obtain rr'
    where p: "logImplPoll one_entry_ctx 2 = Some (0, rr')" "rr_log rr' = one_entry_log"
      and miss: "EntryCacheGet (rr_logcache rr') 1 = Some None"
    by (auto simp: one_entry_ctx_props(2))
  from RaftLogGet_rep [OF one_entry_log_props(2), of 0] obtain log2
    where g: "RaftLogGet one_entry_log 1 = Some (Some demo_entry, log2)"
    by (auto simp: one_entry_log_props(3))
  have a: "logImplFirstIdx one_entry_ctx < 2" "2 \<le> logImplCurrentIdx one_entry_ctx + 1"
    by (simp_all add: logImplFirstIdx_def logImplCurrentIdx_def RaftLogFirstIdx_def
        RaftLogCurrentIdx_def one_entry_ctx_props(2) one_entry_log_props)
  have b: "logImplFirstIdx rr' \<noteq> 2"
    by (simp add: logImplFirstIdx_def RaftLogFirstIdx_def p(2) one_entry_log_props)
  have "logImplGet rr' 1 = Some (Some demo_entry, rr'\<lparr>rr_log := log2\<rparr>)"
    by (simp add: logImplGet_miss [OF miss] p(2) g)
  with a b p(1) show ?thesis by blast
qed

text \<open>
  Claim C3, as the code has it: \<^verbatim>\<open>poll\<close> with \<open>k\<close> returns 0 and evicts from the entry cache every
  index below \<open>k\<close>; it leaves the log as it is, so \<open>first_idx\<close>, \<open>current_idx\<close> and the count are what
  they were, and \<^verbatim>\<open>get\<close> of a live index below \<open>k\<close> still returns the entry of that index, read from
  the log file.
\<close>

theorem poll_evicts_cache_only:
  assumes c: "cache_contract (rr_logcache rr)" and rep: "log_rep (rr_log rr) es"
  shows "\<exists>rr'. logImplPoll rr k = Some (0, rr') \<and> rr_log rr' = rr_log rr \<and>
           logImplFirstIdx rr' = logImplFirstIdx rr \<and>
           logImplCurrentIdx rr' = logImplCurrentIdx rr \<and>
           logImplCount rr' = logImplCount rr \<and>
           (\<forall>j. j < k \<longrightarrow> EntryCacheGet (rr_logcache rr') j = Some None) \<and>
           (\<forall>j. j < k \<and> logImplFirstIdx rr < j \<and> j \<le> logImplCurrentIdx rr \<longrightarrow>
              (\<exists>rr''. logImplGet rr' j = Some (Some (entry_at (rr_log rr) es j), rr'')))"
proof -
  from logImplPoll_result [OF c, of k] obtain rr'
    where p: "logImplPoll rr k = Some (0, rr')" and l: "rr_log rr' = rr_log rr"
      and miss: "\<And>j. j < k \<Longrightarrow> EntryCacheGet (rr_logcache rr') j = Some None"
    by blast
  have get: "\<exists>rr''. logImplGet rr' j = Some (Some (entry_at (rr_log rr) es j), rr'')"
    if j: "j < k" "logImplFirstIdx rr < j" "j \<le> logImplCurrentIdx rr" for j
  proof -
    from j(2,3) have lo: "snapshot_last_idx (rr_log rr) < j" and hi: "j \<le> index (rr_log rr)"
      by (simp_all add: logImplFirstIdx_def logImplCurrentIdx_def RaftLogFirstIdx_def
          RaftLogCurrentIdx_def)
    from live_index [OF rep lo hi] obtain n where n: "n < length es"
      "j = snapshot_last_idx (rr_log rr) + word_of_nat (Suc n)"
      "unat (j - snapshot_last_idx (rr_log rr)) - 1 = n"
      by blast
    from RaftLogGet_rep [OF rep n(1)] obtain log2
      where "RaftLogGet (rr_log rr) j = Some (Some (es ! n), log2)"
      unfolding n(2) [symmetric] by blast
    then have "logImplGet rr' j = Some (Some (entry_at (rr_log rr) es j), rr'\<lparr>rr_log := log2\<rparr>)"
      using n(3) by (simp add: logImplGet_miss [OF miss [OF j(1)]] l entry_at_def)
    then show ?thesis by blast
  qed
  show ?thesis
  proof (intro exI conjI)
    show "logImplPoll rr k = Some (0, rr')" by (rule p)
    show "rr_log rr' = rr_log rr" by (rule l)
    show "logImplFirstIdx rr' = logImplFirstIdx rr" by (simp add: logImplFirstIdx_def l)
    show "logImplCurrentIdx rr' = logImplCurrentIdx rr" by (simp add: logImplCurrentIdx_def l)
    show "logImplCount rr' = logImplCount rr" by (simp add: logImplCount_def l)
    show "\<forall>j. j < k \<longrightarrow> EntryCacheGet (rr_logcache rr') j = Some None" using miss by blast
    show "\<forall>j. j < k \<and> logImplFirstIdx rr < j \<and> j \<le> logImplCurrentIdx rr \<longrightarrow>
        (\<exists>rr''. logImplGet rr' j = Some (Some (entry_at (rr_log rr) es j), rr''))"
      using get by blast
  qed
qed

text \<open>
  In the context with one entry, whose cache holds the entry of index 1, with \<open>k = 2\<close>.
\<close>

theorem poll_evicts_cache_only_witness:
  "cache_contract (rr_logcache one_entry_ctx) \<and> log_rep (rr_log one_entry_ctx) [demo_entry] \<and>
   (1::raft_index_t) < 2 \<and> logImplFirstIdx one_entry_ctx < 1 \<and> 1 \<le> logImplCurrentIdx one_entry_ctx \<and>
   EntryCacheGet (rr_logcache one_entry_ctx) 1 = Some (Some demo_entry) \<and>
   (\<exists>rr'. logImplPoll one_entry_ctx 2 = Some (0, rr') \<and> rr_log rr' = rr_log one_entry_ctx \<and>
      logImplFirstIdx rr' = logImplFirstIdx one_entry_ctx \<and>
      logImplCurrentIdx rr' = logImplCurrentIdx one_entry_ctx \<and>
      logImplCount rr' = logImplCount one_entry_ctx \<and>
      EntryCacheGet (rr_logcache rr') 1 = Some None \<and>
      (\<exists>rr''. logImplGet rr' 1 = Some (Some demo_entry, rr'')))"
proof -
  have c: "cache_contract (rr_logcache one_entry_ctx)" by (rule one_entry_ctx_props(3))
  have rep: "log_rep (rr_log one_entry_ctx) [demo_entry]"
    by (simp add: one_entry_ctx_props(2) one_entry_log_props(2))
  have a: "(1::raft_index_t) < 2" "logImplFirstIdx one_entry_ctx < 1"
    "1 \<le> logImplCurrentIdx one_entry_ctx"
    by (simp_all add: logImplFirstIdx_def logImplCurrentIdx_def RaftLogFirstIdx_def
        RaftLogCurrentIdx_def one_entry_ctx_props(2) one_entry_log_props)
  have e: "entry_at (rr_log one_entry_ctx) [demo_entry] 1 = demo_entry"
    by (simp add: entry_at_def one_entry_ctx_props(2) one_entry_log_props)
  from poll_evicts_cache_only [OF c rep, of 2] a e c rep one_entry_ctx_props(4)
  show ?thesis by metis
qed

section \<open>Deleting a suffix\<close>

text \<open>Reading changes nothing of a stream but its position.\<close>

lemma fgets_frame:
  assumes "fgets n f = Some (line, g)"
  shows "g = f\<lparr>pos := pos g\<rparr>"
  using assms by (auto simp: fgets_def Let_def split: if_splits)

lemma fread_frame:
  assumes "fread n f = (xs, g)"
  shows "g = f\<lparr>pos := pos g\<rparr>"
  using assms by (auto simp: fread_def Let_def)

lemma frame_trans:
  assumes "g = f\<lparr>pos := pos g\<rparr>" and "h = g\<lparr>pos := pos h\<rparr>"
  shows "h = f\<lparr>pos := pos h\<rparr>"
  by (subst assms(2), subst assms(1)) simp

lemma readEncodedLength_frame:
  assumes "readEncodedLength f t = (r, g)"
  shows "g = f\<lparr>pos := pos g\<rparr>"
  using assms
  by (auto simp: readEncodedLength_def split: option.splits list.splits if_splits prod.splits
      dest: fgets_frame)

lemma read_elements_frame:
  assumes "read_elements n f = Some (r, g)"
  shows "g = f\<lparr>pos := pos g\<rparr>"
  using assms
proof (induction n arbitrary: f r g)
  case 0
  then show ?case by simp
next
  case (Suc n)
  obtain l f1 where rl: "readEncodedLength f (CHR ''$'') = (l, f1)" by force
  note s1 = readEncodedLength_frame [OF rl]
  show ?case
  proof (cases l)
    case None
    with Suc.prems rl s1 show ?thesis by simp
  next
    case (Some len')
    obtain bytes f2 where fr: "fread (unat (len' + 2)) f1 = (bytes, f2)" by force
    note s2 = frame_trans [OF s1 fread_frame [OF fr]]
    show ?thesis
    proof (cases "length bytes \<noteq> unat (len' + 2) \<or> unat len' + 2 \<noteq> unat (len' + 2)")
      case True
      with Suc.prems rl Some fr s2 show ?thesis by (auto split: if_splits)
    next
      case False
      with Suc.prems rl Some fr obtain r' where "read_elements n f2 = Some (r', g)"
        by (auto split: Option.bind_splits)
      from frame_trans [OF s2 Suc.IH [OF this]] show ?thesis .
    qed
  qed
qed

lemma readRawLogEntry_frame:
  assumes "readRawLogEntry f = Some (r, g)"
  shows "g = f\<lparr>pos := pos g\<rparr>"
proof -
  obtain n f1 where rl: "readEncodedLength f (CHR ''*'') = (n, f1)" by force
  note s1 = readEncodedLength_frame [OF rl]
  show ?thesis
  proof (cases n)
    case None
    with assms rl s1 show ?thesis by (simp add: readRawLogEntry_def)
  next
    case (Some k)
    with assms rl obtain r' where re: "read_elements (unat k) f1 = Some (r', g)"
      by (auto simp: readRawLogEntry_def split: Option.bind_splits)
    from frame_trans [OF s1 read_elements_frame [OF re]] show ?thesis .
  qed
qed

lemma delete_scan_frame:
  assumes "delete_scan log idx = Some (st, cbs, log2)"
  shows "log2 = log\<lparr>file' := (file' log)\<lparr>pos := pos (file' log2)\<rparr>\<rparr>"
  using assms
proof (induction log idx arbitrary: st cbs log2 rule: delete_scan.induct)
  case (1 log idx)
  from "1.prems" obtain re f where rd: "readRawLogEntry (file' log) = Some (re, f)"
    by (subst (asm) delete_scan.simps) (auto simp: Let_def split: Option.bind_splits)
  note fr = readRawLogEntry_frame [OF rd]
  define log1 where "log1 = log\<lparr>file' := f\<rparr>"
  have l1: "log1 = log\<lparr>file' := (file' log)\<lparr>pos := pos (file' log1)\<rparr>\<rparr>"
    using fr by (simp add: log1_def Let_def)
  have step: "log2 = log1\<lparr>file' := (file' log1)\<lparr>pos := pos (file' log2)\<rparr>\<rparr>"
  proof (cases re)
    case None
    with "1.prems" rd show ?thesis
      by (subst (asm) delete_scan.simps) (simp add: log1_def Let_def)
  next
    case (Some r)
    from "1.prems" rd Some obtain e0 where e0: "load (elements r) 0 = Some e0"
      by (subst (asm) delete_scan.simps) (auto simp: Let_def split: Option.bind_splits)
    show ?thesis
    proof (cases "strcasecmp_eq (c_str e0) ''ENTRY''")
      case True
      from "1.prems" rd Some e0 True obtain e where pe: "parseRaftLogEntry r = Some e"
        by (subst (asm) delete_scan.simps) (auto simp: Let_def split: Option.bind_splits)
      show ?thesis
      proof (cases e)
        case None
        with "1.prems" rd Some e0 True pe show ?thesis
          by (subst (asm) delete_scan.simps) (simp add: log1_def Let_def)
      next
        case (Some ee)
        from "1.prems" rd \<open>re = Some r\<close> e0 True pe Some obtain ret' cbs' 
          where rec: "delete_scan log1 (idx + 1) = Some (ret', cbs', log2)"
          by (subst (asm) delete_scan.simps) (auto simp: log1_def Let_def split: Option.bind_splits)
        show ?thesis
          using "1.IH"(1) rd \<open>re = Some r\<close> e0 True pe Some rec by (auto simp: log1_def)
      qed
    next
      case False
      from "1.prems" rd Some e0 False
      have rec: "delete_scan log1 idx = Some (st, cbs, log2)"
        by (subst (asm) delete_scan.simps) (auto simp: log1_def Let_def split: Option.bind_splits)
      show ?thesis
        using "1.IH"(2) rd \<open>re = Some r\<close> e0 False rec by (auto simp: log1_def)
    qed
  qed
  have "f\<lparr>pos := p\<rparr> = (file' log)\<lparr>pos := p\<rparr>" for p
    by (subst fr) simp
  then show ?case by (subst step) (simp add: log1_def)
qed


lemma seekEntry_frame:
  assumes "seekEntry log i = (off, log1)"
  shows "log1 = log\<lparr>idxfile := (idxfile log)\<lparr>pos := pos (idxfile log1)\<rparr>,
                    file' := (file' log)\<lparr>pos := pos (file' log1)\<rparr>\<rparr>"
    and "0 \<le> sint off"
  using assms
  by (auto simp: seekEntry_def Let_def fseek_def fread_def split: if_splits list.splits)

lemma RaftLogDelete_result:
  assumes se: "seekEntry log from_idx = (offset, log1)" and off: "offset \<noteq> 0"
    and sc: "delete_scan log1 from_idx = Some (st, cbs, log2)"
    and nf: "faults (file' log) = []"
  shows "\<exists>log'. RaftLogDelete log from_idx = Some (st, cbs, log') \<and>
           contents (file' log') =
             take (nat (sint offset)) (contents (file' log)) @
             replicate (nat (sint offset) - length (contents (file' log))) NUL \<and>
           append_mode (file' log') = append_mode (file' log) \<and>
           faults (file' log') = [] \<and>
           idxfile log' = (idxfile log)\<lparr>pos := pos (idxfile log')\<rparr> \<and>
           index log' = from_idx - 1 \<and>
           num_entries log' = num_entries log - (index log - from_idx + 1) \<and>
           log' = log\<lparr>file' := file' log', idxfile := idxfile log',
                      num_entries := num_entries log', index := index log'\<rparr>"
proof -
  note s = seekEntry_frame [OF se]
  note d = delete_scan_frame [OF sc]
  have g1: "file' log1 = (file' log)\<lparr>pos := pos (file' log1)\<rparr>"
    "idxfile log1 = (idxfile log)\<lparr>pos := pos (idxfile log1)\<rparr>"
    "index log1 = index log" "num_entries log1 = num_entries log"
    "log1\<lparr>file' := a, idxfile := b, num_entries := c, index := d\<rparr> =
     log\<lparr>file' := a, idxfile := b, num_entries := c, index := d\<rparr>" for a b c d
    using arg_cong [OF s(1), of file'] arg_cong [OF s(1), of idxfile]
      arg_cong [OF s(1), of index] arg_cong [OF s(1), of num_entries]
      arg_cong [OF s(1), of "\<lambda>l. l\<lparr>file' := a, idxfile := b, num_entries := c, index := d\<rparr>"]
    by simp_all
  have g2: "file' log2 = (file' log1)\<lparr>pos := pos (file' log2)\<rparr>"
    "idxfile log2 = idxfile log1"
    "index log2 = index log1" "num_entries log2 = num_entries log1"
    "log2\<lparr>file' := a, idxfile := b, num_entries := c, index := d\<rparr> =
     log1\<lparr>file' := a, idxfile := b, num_entries := c, index := d\<rparr>" for a b c d
    using arg_cong [OF d, of file'] arg_cong [OF d, of idxfile]
      arg_cong [OF d, of index] arg_cong [OF d, of num_entries]
      arg_cong [OF d, of "\<lambda>l. l\<lparr>file' := a, idxfile := b, num_entries := c, index := d\<rparr>"]
    by simp_all
  have f2: "file' log2 = (file' log)\<lparr>pos := pos (file' log2)\<rparr>"
    "idxfile log2 = (idxfile log)\<lparr>pos := pos (idxfile log2)\<rparr>"
    "index log2 = index log" "num_entries log2 = num_entries log"
       apply (subst g2(1), subst g1(1), simp)
      apply (simp only: g2(2), rule g1(2))
     apply (simp_all add: g1 g2)
    done
  have h: "log2\<lparr>file' := a, num_entries := c, index := d\<rparr> =
      log\<lparr>file' := a, idxfile := idxfile log2, num_entries := c, index := d\<rparr>" for a c d
  proof -
    have "log2\<lparr>file' := a, num_entries := c, index := d\<rparr> =
        log2\<lparr>file' := a, idxfile := idxfile log2, num_entries := c, index := d\<rparr>"
      by simp
    also have "\<dots> = log\<lparr>file' := a, idxfile := idxfile log2, num_entries := c, index := d\<rparr>"
      by (simp only: g2(5) g1(5))
    finally show ?thesis .
  qed
  have nf2: "faults (file' log2) = []" by (subst f2) (simp add: nf)
  have c2: "contents (file' log2) = contents (file' log)"
    "append_mode (file' log2) = append_mode (file' log)"
    by (subst f2, simp)+
  have ft: "ftruncate NUL (file' log2) n =
      (0, (file' log2)\<lparr>contents := take n (contents (file' log)) @
            replicate (n - length (contents (file' log))) NUL\<rparr>)" for n
    by (simp add: nf_ftruncate [OF nf2] c2)
  have "RaftLogDelete log from_idx = Some (st, cbs,
      log2\<lparr>file' := (file' log2)\<lparr>contents := take (nat (sint offset)) (contents (file' log)) @
            replicate (nat (sint offset) - length (contents (file' log))) NUL\<rparr>,
         num_entries := num_entries log2 - (index log2 - from_idx + 1), index := from_idx - 1\<rparr>)"
    using off s(2) by (simp add: RaftLogDelete_def se sc ft Let_def)
  then show ?thesis
    apply (intro exI conjI, assumption)
           apply (simp_all add: f2(3,4) c2 nf2)
     apply (subst f2(2), simp)
    apply (rule h)
    done
qed

lemma strcasecmp_ENTRY: "strcasecmp_eq (c_str ''ENTRY'') ''ENTRY''"
  by (simp add: strcasecmp_eq_def c_str_def NUL_def)

lemma fgets_line_nil: "fgets_line n [] = []"
  by (cases n) simp_all

lemma readRawLogEntry_eof:
  assumes "drop (pos f) (contents f) = []"
  shows "readRawLogEntry f = Some (None, f)"
  using assms by (simp add: readRawLogEntry_def readEncodedLength_def fgets_def fgets_line_nil)

lemma delete_scan_eof:
  assumes "drop (pos (file' log)) (contents (file' log)) = []"
  shows "delete_scan log idx = Some (RR_OK, [], log)"
  using assms
  by (simp add: delete_scan.simps [of log idx] readRawLogEntry_eof)

lemma entry_elements_small:
  assumes "length (entry_bytes e) < 2 ^ 63"
  shows "\<forall>el \<in> set (entry_elements e). length el + 2 < 2 ^ 64"
proof -
  have "length (data e) < 2 ^ 63"
    using length_entry_bytes_ge(2) [of e] assms by simp
  then show ?thesis
    using length_dec_word64 [of "term' e"] length_dec_word64 [of "ucast (id' e)"]
      length_dec_word64 [of "ucast (type' e)"]
    by (simp add: entry_elements_def fmt_lu_def)
qed

lemma readRawLogEntry_entry:
  assumes inp: "drop (pos f) (contents f) = entry_bytes e @ rest"
    and size: "length (contents f) < 2 ^ 63"
  shows "readRawLogEntry f =
           Some (Some \<lparr>num_elements = 5, elements = entry_elements e\<rparr>,
                 f\<lparr>pos := pos f + length (entry_bytes e)\<rparr>)"
proof -
  have "length (entry_bytes e) \<le> length (contents f)"
    using arg_cong [OF inp, of length] by simp
  then have "length (entry_bytes e) < 2 ^ 63" using size by simp
  note els = entry_elements_small [OF this]
  from inp have inp': "drop (pos f) (contents f) = record_bytes (entry_elements e) @ rest"
    by (simp add: entry_bytes_def)
  show ?thesis
    using readRawLogEntry_record [OF inp' _ els] by (simp add: entry_elements_def entry_bytes_def)
qed

lemma delete_scan_entry:
  assumes inp: "drop (pos (file' log)) (contents (file' log)) = entry_bytes e @ rest"
    and size: "length (contents (file' log)) < 2 ^ 63"
  shows "delete_scan log idx =
           (case delete_scan
                   (log\<lparr>file' := (file' log)\<lparr>pos := pos (file' log) + length (entry_bytes e)\<rparr>\<rparr>)
                   (idx + 1) of
              None \<Rightarrow> None
            | Some (ret, cbs, log2) \<Rightarrow> Some (ret, (e, idx) # cbs, log2))"
  by (subst delete_scan.simps)
    (simp add: readRawLogEntry_entry [OF inp size] load_def entry_elements_def [of e]
      strcasecmp_ENTRY parseRaftLogEntry_entry [unfolded entry_elements_def]
      split: option.splits)

lemma delete_scan_entries:
  assumes "drop (pos (file' log)) (contents (file' log)) = concat (map entry_bytes es)"
    and "length (contents (file' log)) < 2 ^ 63"
  shows "\<exists>cbs log2. delete_scan log idx = Some (RR_OK, cbs, log2) \<and> map fst cbs = es"
  using assms
proof (induction es arbitrary: log idx)
  case Nil
  then show ?case by (simp add: delete_scan_eof)
next
  case (Cons e es)
  define log1 where
    "log1 = log\<lparr>file' := (file' log)\<lparr>pos := pos (file' log) + length (entry_bytes e)\<rparr>\<rparr>"
  from Cons.prems(1)
  have inp: "drop (pos (file' log)) (contents (file' log)) =
      entry_bytes e @ concat (map entry_bytes es)"
    by simp
  have "drop (pos (file' log1)) (contents (file' log1)) = concat (map entry_bytes es)"
    using arg_cong [OF inp, of "drop (length (entry_bytes e))"]
    by (simp add: log1_def add.commute)
  moreover have "length (contents (file' log1)) < 2 ^ 63"
    using Cons.prems(2) by (simp add: log1_def)
  ultimately obtain cbs log2
    where "delete_scan log1 (idx + 1) = Some (RR_OK, cbs, log2)" "map fst cbs = es"
    using Cons.IH by blast
  then show ?case
    by (simp add: delete_scan_entry [OF inp Cons.prems(2)] log1_def [symmetric])
qed

lemma take_entry_offset:
  assumes "log_rep log es" and k: "k \<le> length es"
  shows "take (entry_offset log es k) (contents (file' log)) =
           header_bytes log @ concat (map entry_bytes (take k es))"
proof -
  note r = log_repD [OF assms(1)]
  have "concat (map entry_bytes es) =
      concat (map entry_bytes (take k es)) @ concat (map entry_bytes (drop k es))"
    by (simp flip: concat_append map_append)
  then show ?thesis by (simp add: r(3) entry_offset_def)
qed

lemma log_rep_delete:
  assumes rep: "log_rep log es" and j: "j < length es"
    and nf: "faults (file' log) = []"
  defines "k \<equiv> snapshot_last_idx log + word_of_nat (Suc j)"
  shows "\<exists>cbs log'. RaftLogDelete log k = Some (RR_OK, cbs, log') \<and> map fst cbs = drop j es \<and>
           log_rep log' (take j es) \<and> index log' = k - 1 \<and>
           num_entries log' = num_entries log - (index log - k + 1) \<and>
           snapshot_last_idx log' = snapshot_last_idx log \<and>
           faults (file' log') = [] \<and> faults (idxfile log') = faults (idxfile log) \<and>
           length (contents (file' log')) \<le> length (contents (file' log))"
proof -
  note r = log_repD [OF rep]
  define off where "off = entry_offset log es j"
  from seekEntry_rep [OF rep j] obtain log1
    where se: "seekEntry log k = (word_of_nat off, log1)"
      and l1: "log1 = log\<lparr>idxfile := idxfile log1, file' := (file' log)\<lparr>pos := off\<rparr>\<rparr>"
    unfolding k_def off_def by blast
  have f1: "file' log1 = (file' log)\<lparr>pos := off\<rparr>"
    using arg_cong [OF l1, of file'] by simp
  have so: "sint (word_of_nat off :: 64 word) = int off"
    unfolding off_def using entry_offset_bound(2) [OF rep] by (rule sint_of_nat64)
  have off0: "(word_of_nat off :: 64 word) \<noteq> 0"
  proof
    assume "(word_of_nat off :: 64 word) = 0"
    then have "sint (word_of_nat off :: 64 word) = 0" by simp
    with so entry_offset_bound(3) [OF rep, of j] show False by (simp add: off_def)
  qed
  have inp: "drop (pos (file' log1)) (contents (file' log1)) = concat (map entry_bytes (drop j es))"
    using drop_entry_offset [OF rep j] j
    by (simp add: f1 off_def flip: Cons_nth_drop_Suc)
  have sz: "length (contents (file' log1)) < 2 ^ 63" using r(4) by (simp add: f1)
  from delete_scan_entries [OF inp sz, of k] obtain cbs log2
    where sc: "delete_scan log1 k = Some (RR_OK, cbs, log2)" and cbs: "map fst cbs = drop j es"
    by blast
  from RaftLogDelete_result [OF se off0 sc nf] obtain log'
    where del: "RaftLogDelete log k = Some (RR_OK, cbs, log')"
      and c': "contents (file' log') = take off (contents (file' log)) @
                 replicate (off - length (contents (file' log))) NUL"
      and am: "append_mode (file' log') = append_mode (file' log)"
      and nf': "faults (file' log') = []"
      and xf: "idxfile log' = (idxfile log)\<lparr>pos := pos (idxfile log')\<rparr>"
      and idx: "index log' = k - 1"
      and ne: "num_entries log' = num_entries log - (index log - k + 1)"
      and l': "log' = log\<lparr>file' := file' log', idxfile := idxfile log',
                      num_entries := num_entries log', index := index log'\<rparr>"
    unfolding so by auto
  have xc: "contents (idxfile log') = contents (idxfile log)"
    "append_mode (idxfile log') = append_mode (idxfile log)"
    "faults (idxfile log') = faults (idxfile log)"
    by (subst xf, simp)+
  have same: "dbid log' = dbid log" "snapshot_last_term log' = snapshot_last_term log"
    "snapshot_last_idx log' = snapshot_last_idx log" "log_term log' = log_term log"
    "vote log' = vote log"
    by (subst l', simp)+
  have hb: "header_bytes log' = header_bytes log" by (rule header_bytes_cong) (simp_all add: same)
  have le: "off \<le> length (contents (file' log))"
    unfolding off_def by (rule entry_offset_bound(1) [OF rep])
  have cont: "contents (file' log') = header_bytes log @ concat (map entry_bytes (take j es))"
    using le take_entry_offset [OF rep, of j] j by (simp add: c' off_def)
  have idx': "index log' = snapshot_last_idx log + word_of_nat j"
    by (simp add: idx k_def)
  have ne': "num_entries log' = word_of_nat j"
    by (simp add: ne r(6,7) k_def)
  have eo: "entry_offset log' (take j es) i = entry_offset log es i" if "i < j" for i
    using that by (simp add: entry_offset_def hb min_def)
  have len': "length (header_bytes log) + length (concat (map entry_bytes (take j es))) < 2 ^ 63"
    using le r(4) by (simp add: off_def entry_offset_def)
  have rep': "log_rep log' (take j es)"
    unfolding log_rep_def
    using j r(1,2,4,5,8,9) r(10) le len'
    by (auto simp: am xc same hb cont [unfolded hb [symmetric]] idx' ne' list_all_iff eo c' min_def)
  have "length (contents (file' log')) \<le> length (contents (file' log))"
    using le by (simp add: c')
  with del cbs rep' idx ne same(3) nf' xc(3) show ?thesis by blast
qed

lemma delete_then_append:
  assumes rep: "log_rep log es"
    and lo: "snapshot_last_idx log < k" and hi: "k \<le> index log"
    and nf: "faults (file' log) = []" "faults (idxfile log) = []"
    and small: "length (data e) + 25 < 2 ^ 31"
    and room: "length (contents (file' log)) + length (entry_bytes e) < 2 ^ 63"
  defines "j \<equiv> unat (k - snapshot_last_idx log) - 1"
  shows "\<exists>cbs log' log'' log3.
           RaftLogDelete log k = Some (RR_OK, cbs, log') \<and> map fst cbs = drop j es \<and>
           log_rep log' (take j es) \<and> index log' = k - 1 \<and>
           num_entries log' = num_entries log - (index log - k + 1) \<and>
           snapshot_last_idx log' = snapshot_last_idx log \<and>
           RaftLogAppend log' e = (RR_OK, log'') \<and> log_rep log'' (take j es @ [e]) \<and>
           index log'' = k \<and> num_entries log'' = num_entries log' + 1 \<and>
           RaftLogGet log'' k = Some (Some e, log3)"
proof -
  from live_index [OF rep lo hi] have j: "j < length es"
    and k: "k = snapshot_last_idx log + word_of_nat (Suc j)"
    unfolding j_def by auto
  from log_rep_delete [OF rep j nf(1), folded k] obtain cbs log'
    where del: "RaftLogDelete log k = Some (RR_OK, cbs, log')" "map fst cbs = drop j es"
      and rep': "log_rep log' (take j es)" and idx: "index log' = k - 1"
      and ne: "num_entries log' = num_entries log - (index log - k + 1)"
      and snap: "snapshot_last_idx log' = snapshot_last_idx log"
      and nf': "faults (file' log') = []" "faults (idxfile log') = []"
      and len: "length (contents (file' log')) \<le> length (contents (file' log))"
    by (auto simp: nf(2))
  have "8 * Suc j < 2 ^ 63" using rep_count [OF rep] j by simp
  then have sl: "idx_slot (word_of_nat (Suc j)) = int (Suc j)" by (rule idx_slot_of_nat)
  have "index log' + 1 - snapshot_last_idx log' = word_of_nat (Suc j)"
    by (simp add: idx snap k)
  then have slot: "0 \<le> idx_slot (index log' + 1 - snapshot_last_idx log')"
    by (simp only: sl)
  from nf_RaftLogAppend [OF nf' small slot] obtain log''
    where ap: "RaftLogAppend log' e = (RR_OK, log'')"
    by blast
  have ui: "unat (index log') = unat (snapshot_last_idx log) + j"
  proof -
    have "index log' = snapshot_last_idx log + word_of_nat j" by (simp add: idx k)
    moreover have "j \<le> length es" using j by simp
    ultimately show ?thesis using rep_index_unat [OF rep] by simp
  qed
  have room1: "unat (index log') + 1 < 2 ^ 64"
    using ui log_repD(5) [OF rep] j by simp
  have room2: "length (contents (file' log')) + length (entry_bytes e) < 2 ^ 63"
    using room len by simp
  have rep'': "log_rep log'' (take j es @ [e])"
    using rep' ap small room1 room2 by (rule log_rep_append)
  from RaftLogAppend_ok_count [of log' e] ap
  have cnt: "num_entries log'' = num_entries log' + 1" "index log'' = index log' + 1"
    "snapshot_last_idx log'' = snapshot_last_idx log'"
    by simp_all
  have idx'': "index log'' = k" by (simp add: cnt idx)
  have lj: "j < length (take j es @ [e])" using j by simp
  from RaftLogGet_rep [OF rep'' lj] obtain log3
    where "RaftLogGet log'' (snapshot_last_idx log'' + word_of_nat (Suc j)) =
        Some (Some ((take j es @ [e]) ! j), log3)"
    by blast
  moreover have "(take j es @ [e]) ! j = e" using j by (simp add: nth_append)
  moreover have "snapshot_last_idx log'' + word_of_nat (Suc j) = k"
    by (simp only: cnt snap k)
  ultimately have get: "RaftLogGet log'' k = Some (Some e, log3)" by simp
  from del rep' idx ne snap ap rep'' idx'' cnt(1) get show ?thesis by blast
qed

lemma one_entry_log_size: "length (contents (file' one_entry_log)) \<le> 300"
proof -
  note r = log_repD [OF one_entry_log_props(2)]
  have "length (dec (length (dbid one_entry_log))) \<le> 2"
    using r(8) by (intro length_dec_le) (simp_all add: RAFT_DBID_LEN_def)
  moreover have "length (entry_bytes demo_entry) \<le> 121"
    using length_entry_bytes_le [OF demo_entry_small] by (simp add: demo_entry_def)
  ultimately show ?thesis
    using r(8) by (simp add: r(3) length_header_bytes RAFT_DBID_LEN_def)
qed

text \<open>
  Claim C6. On a log that holds the entries \<open>es\<close>, with \<open>first_idx < k \<le> current_idx\<close> and no
  failure of the files, \<^verbatim>\<open>RaftLogDelete\<close> from \<open>k\<close> returns \<^verbatim>\<open>RR_OK\<close>, passes the entries from \<open>k\<close> on to
  the callback, and leaves the log with the entries before \<open>k\<close>: the current index is \<open>k - 1\<close> and
  the count is less by \<open>index - k + 1\<close>. An append to that log succeeds, the current index is \<open>k\<close>
  then, and \<^verbatim>\<open>RaftLogGet\<close> of \<open>k\<close> returns the entry that was appended.
\<close>

theorem delete_suffix_then_append:
  assumes rep: "log_rep log es"
    and lo: "RaftLogFirstIdx log < k" and hi: "k \<le> RaftLogCurrentIdx log"
    and nf: "faults (file' log) = []" "faults (idxfile log) = []"
    and small: "length (data e) + 25 < 2 ^ 31"
    and room: "length (contents (file' log)) + length (entry_bytes e) < 2 ^ 63"
  shows "\<exists>cbs log' log'' log3.
           RaftLogDelete log k = Some (RR_OK, cbs, log') \<and>
           map fst cbs = drop (unat (k - RaftLogFirstIdx log) - 1) es \<and>
           log_rep log' (take (unat (k - RaftLogFirstIdx log) - 1) es) \<and>
           RaftLogCurrentIdx log' = k - 1 \<and>
           RaftLogCount log' = RaftLogCount log - (RaftLogCurrentIdx log - k + 1) \<and>
           RaftLogFirstIdx log' = RaftLogFirstIdx log \<and>
           RaftLogAppend log' e = (RR_OK, log'') \<and>
           RaftLogCurrentIdx log'' = k \<and> RaftLogCount log'' = RaftLogCount log' + 1 \<and>
           RaftLogGet log'' k = Some (Some e, log3)"
proof -
  from lo hi have lo': "snapshot_last_idx log < k" and hi': "k \<le> index log"
    by (simp_all add: RaftLogFirstIdx_def RaftLogCurrentIdx_def)
  from delete_then_append [OF rep lo' hi' nf small room] obtain cbs log' log'' log3
    where "RaftLogDelete log k = Some (RR_OK, cbs, log')"
      "map fst cbs = drop (unat (k - snapshot_last_idx log) - 1) es"
      "log_rep log' (take (unat (k - snapshot_last_idx log) - 1) es)"
      "index log' = k - 1" "num_entries log' = num_entries log - (index log - k + 1)"
      "snapshot_last_idx log' = snapshot_last_idx log"
      "RaftLogAppend log' e = (RR_OK, log'')" "index log'' = k"
      "num_entries log'' = num_entries log' + 1" "RaftLogGet log'' k = Some (Some e, log3)"
    by blast
  then show ?thesis
    unfolding RaftLogFirstIdx_def RaftLogCurrentIdx_def RaftLogCount_def by blast
qed

text \<open>The log with one entry, whose entry is deleted and appended again.\<close>

theorem delete_suffix_then_append_witness:
  "log_rep one_entry_log [demo_entry] \<and>
   RaftLogFirstIdx one_entry_log < 1 \<and> 1 \<le> RaftLogCurrentIdx one_entry_log \<and>
   faults (file' one_entry_log) = [] \<and> faults (idxfile one_entry_log) = [] \<and>
   length (data demo_entry) + 25 < 2 ^ 31 \<and>
   length (contents (file' one_entry_log)) + length (entry_bytes demo_entry) < 2 ^ 63 \<and>
   (\<exists>cbs log' log'' log3.
      RaftLogDelete one_entry_log 1 = Some (RR_OK, cbs, log') \<and> map fst cbs = [demo_entry] \<and>
      log_rep log' [] \<and> RaftLogCurrentIdx log' = 0 \<and> RaftLogCount log' = 0 \<and>
      RaftLogAppend log' demo_entry = (RR_OK, log'') \<and>
      RaftLogCurrentIdx log'' = 1 \<and> RaftLogCount log'' = 1 \<and>
      RaftLogGet log'' 1 = Some (Some demo_entry, log3))"
proof -
  note p = one_entry_log_props
  have lo: "RaftLogFirstIdx one_entry_log < 1" and hi: "1 \<le> RaftLogCurrentIdx one_entry_log"
    by (simp_all add: RaftLogFirstIdx_def RaftLogCurrentIdx_def p)
  have small: "length (data demo_entry) + 25 < 2 ^ 31" by (simp add: demo_entry_def)
  have "length (entry_bytes demo_entry) \<le> 121"
    using length_entry_bytes_le [OF demo_entry_small] by (simp add: demo_entry_def)
  with one_entry_log_size have room:
    "length (contents (file' one_entry_log)) + length (entry_bytes demo_entry) < 2 ^ 63"
    by simp
  have j: "unat (1 - RaftLogFirstIdx one_entry_log) - 1 = 0"
    by (simp add: RaftLogFirstIdx_def p)
  have c: "RaftLogCount one_entry_log - (RaftLogCurrentIdx one_entry_log - 1 + 1) = 0"
    by (simp add: RaftLogCount_def RaftLogCurrentIdx_def p)
  from delete_suffix_then_append [OF p(2) lo hi p(6,7) small room, unfolded j c]
  have ex: "\<exists>cbs log' log'' log3.
      RaftLogDelete one_entry_log 1 = Some (RR_OK, cbs, log') \<and> map fst cbs = [demo_entry] \<and>
      log_rep log' [] \<and> RaftLogCurrentIdx log' = 0 \<and> RaftLogCount log' = 0 \<and>
      RaftLogAppend log' demo_entry = (RR_OK, log'') \<and>
      RaftLogCurrentIdx log'' = 1 \<and> RaftLogCount log'' = 1 \<and>
      RaftLogGet log'' 1 = Some (Some demo_entry, log3)"
    by auto
  from p(2) lo hi p(6,7) small room ex show ?thesis by (intro conjI) assumption+
qed

section \<open>Deleting a suffix that does not parse\<close>

lemma seekEntry_contents:
  "seekEntry (log\<lparr>file' := (file' log)\<lparr>contents := c\<rparr>\<rparr>) i =
     (case seekEntry log i of
        (off, l) \<Rightarrow> (off, l\<lparr>file' := (file' l)\<lparr>contents := c\<rparr>\<rparr>))"
  by (simp add: seekEntry_def Let_def fseek_def fread_def split: list.splits)

lemma readRawLogEntry_bad_record:
  assumes "drop (pos f) (contents f) = bad_record @ rest"
  shows "readRawLogEntry f =
           Some (Some \<lparr>num_elements = 5, elements = [''ENTRY'', ''x'', ''1'', ''2'', ''d'']\<rparr>,
                 f\<lparr>pos := pos f + length bad_record\<rparr>)"
  using readRawLogEntry_record [of f "[''ENTRY'', ''x'', ''1'', ''2'', ''d'']" rest] assms
  by (simp add: bad_record_def)

lemma parse_bad_record:
  "parseRaftLogEntry \<lparr>num_elements = 5, elements = [''ENTRY'', ''x'', ''1'', ''2'', ''d'']\<rparr> =
     Some None"
  by (simp add: parseRaftLogEntry_def load_def strtoul_def scan_number_def c_str_def NUL_def
      isspace_def isdigit_def deref_def)

lemma delete_scan_bad_record:
  assumes "drop (pos (file' log)) (contents (file' log)) = bad_record @ rest"
  shows "delete_scan log idx =
           Some (RR_ERROR, [],
             log\<lparr>file' := (file' log)\<lparr>pos := pos (file' log) + length bad_record\<rparr>\<rparr>)"
  by (subst delete_scan.simps)
    (simp add: readRawLogEntry_bad_record [OF assms] load_def strcasecmp_ENTRY parse_bad_record)

lemma length_bad_record: "length bad_record \<le> 100"
  by (simp add: bad_record_def record_bytes_def length_element_bytes length_dec_digit length_CRLF)

lemma corrupt_log_scan:
  defines "H \<equiv> length (header_bytes one_entry_log)"
  shows "\<exists>log1 log2. seekEntry corrupt_log 1 = (word_of_nat H, log1) \<and>
           delete_scan log1 1 = Some (RR_ERROR, [(demo_entry, 1)], log2)"
    and "sint (word_of_nat H :: 64 word) = int H" and "0 < H"
    and "take H (contents (file' corrupt_log)) = header_bytes one_entry_log"
    and "H \<le> length (contents (file' corrupt_log))"
proof -
  note p = one_entry_log_props
  note r = log_repD [OF p(2)]
  have eo: "entry_offset one_entry_log [demo_entry] 0 = H"
    by (simp add: entry_offset_def H_def)
  from seekEntry_rep [OF p(2), of 0] obtain l1
    where se1: "seekEntry one_entry_log 1 = (word_of_nat H, l1)"
      and l1: "l1 = one_entry_log\<lparr>idxfile := idxfile l1,
                      file' := (file' one_entry_log)\<lparr>pos := H\<rparr>\<rparr>"
    by (auto simp: p(3) eo)
  define C where "C = contents (file' one_entry_log) @ bad_record"
  define log1 where "log1 = l1\<lparr>file' := (file' l1)\<lparr>contents := C\<rparr>\<rparr>"
  have se: "seekEntry corrupt_log 1 = (word_of_nat H, log1)"
    by (simp add: corrupt_log_def seekEntry_contents se1 log1_def C_def)
  have f1: "file' log1 = (file' one_entry_log)\<lparr>pos := H, contents := C\<rparr>"
    using arg_cong [OF l1, of file'] by (simp add: log1_def)
  have CC: "C = header_bytes one_entry_log @ entry_bytes demo_entry @ bad_record"
    by (simp add: C_def r(3))
  have inp: "drop (pos (file' log1)) (contents (file' log1)) = entry_bytes demo_entry @ bad_record"
    by (simp add: f1 CC H_def)
  have sz: "length (contents (file' log1)) < 2 ^ 63"
    using one_entry_log_size length_bad_record by (simp add: f1 C_def)
  define log1' where
    "log1' = log1\<lparr>file' := (file' log1)\<lparr>pos := pos (file' log1) + length (entry_bytes demo_entry)\<rparr>\<rparr>"
  have inp': "drop (pos (file' log1')) (contents (file' log1')) = bad_record @ []"
    by (simp add: log1'_def f1 CC H_def)
  have "delete_scan log1 1 = Some (RR_ERROR, [(demo_entry, 1)],
      log1'\<lparr>file' := (file' log1')\<lparr>pos := pos (file' log1') + length bad_record\<rparr>\<rparr>)"
    by (simp add: delete_scan_entry [OF inp sz] log1'_def [symmetric]
        delete_scan_bad_record [OF inp'])
  with se show "\<exists>log1 log2. seekEntry corrupt_log 1 = (word_of_nat H, log1) \<and>
           delete_scan log1 1 = Some (RR_ERROR, [(demo_entry, 1)], log2)"
    by blast
  show "sint (word_of_nat H :: 64 word) = int H"
    using entry_offset_bound(2) [OF p(2), of 0] unfolding eo by (rule sint_of_nat64)
  show "0 < H" using entry_offset_bound(3) [OF p(2), of 0] unfolding eo .
  show "take H (contents (file' corrupt_log)) = header_bytes one_entry_log"
    by (simp add: corrupt_log_def r(3) H_def)
  show "H \<le> length (contents (file' corrupt_log))"
    by (simp add: corrupt_log_def r(3) H_def)
qed

text \<open>
  Claim C9. When \<^verbatim>\<open>RaftLogDelete\<close> has found the offset of \<open>from_idx\<close> and the loop over the records
  stops at an entry that \<^verbatim>\<open>parseRaftLogEntry\<close> rejects, it returns \<^verbatim>\<open>RR_ERROR\<close> and has done what it
  does when it succeeds: the log file ends at that offset (\<^verbatim>\<open>ftruncate\<close> not failing), \<open>index\<close> is
  \<open>from_idx - 1\<close>, and \<open>num_entries\<close> is less by \<open>index - from_idx + 1\<close>. The callback has been called
  for the entries before the one that was rejected.
\<close>

theorem delete_parse_error_not_rolled_back:
  assumes se: "seekEntry log from_idx = (offset, log1)" and off: "offset \<noteq> 0"
    and sc: "delete_scan log1 from_idx = Some (RR_ERROR, cbs, log2)"
    and nf: "faults (file' log) = []"
  shows "\<exists>log'. RaftLogDelete log from_idx = Some (RR_ERROR, cbs, log') \<and>
           contents (file' log') =
             take (nat (sint offset)) (contents (file' log)) @
             replicate (nat (sint offset) - length (contents (file' log))) NUL \<and>
           index log' = from_idx - 1 \<and>
           num_entries log' = num_entries log - (index log - from_idx + 1)"
proof -
  from RaftLogDelete_result [OF se off sc nf] obtain log'
    where del: "RaftLogDelete log from_idx = Some (RR_ERROR, cbs, log')"
      and rest: "contents (file' log') =
             take (nat (sint offset)) (contents (file' log)) @
             replicate (nat (sint offset) - length (contents (file' log))) NUL"
        "index log' = from_idx - 1"
        "num_entries log' = num_entries log - (index log - from_idx + 1)"
    by blast
  show ?thesis
  proof (intro exI conjI)
    show "RaftLogDelete log from_idx = Some (RR_ERROR, cbs, log')" by (rule del)
  qed (rule rest)+
qed

text \<open>
  The log with one entry and a record behind it whose term is not a number: deleting from index 1
  passes the entry to the callback, fails at the record, and leaves the header alone in the file.
\<close>

theorem delete_parse_error_not_rolled_back_witness:
  "faults (file' corrupt_log) = [] \<and> index corrupt_log = 1 \<and> num_entries corrupt_log = 1 \<and>
   (\<exists>offset log1 log2. seekEntry corrupt_log 1 = (offset, log1) \<and> offset \<noteq> 0 \<and>
      delete_scan log1 1 = Some (RR_ERROR, [(demo_entry, 1)], log2)) \<and>
   (\<exists>log'. RaftLogDelete corrupt_log 1 = Some (RR_ERROR, [(demo_entry, 1)], log') \<and>
      contents (file' log') = header_bytes corrupt_log \<and>
      index log' = 0 \<and> num_entries log' = 0)"
proof -
  note p = one_entry_log_props
  define H where "H = length (header_bytes one_entry_log)"
  note c = corrupt_log_scan [folded H_def]
  from c(1) obtain log1 log2
    where se: "seekEntry corrupt_log 1 = (word_of_nat H, log1)"
      and sc: "delete_scan log1 1 = Some (RR_ERROR, [(demo_entry, 1)], log2)"
    by blast
  have off: "(word_of_nat H :: 64 word) \<noteq> 0"
  proof
    assume "(word_of_nat H :: 64 word) = 0"
    then have "sint (word_of_nat H :: 64 word) = 0" by simp
    with c(2,3) show False by simp
  qed
  have nf: "faults (file' corrupt_log) = []" by (simp add: corrupt_log_def p)
  have fl: "index corrupt_log = 1" "num_entries corrupt_log = 1"
    by (simp_all add: corrupt_log_def p)
  have hb: "header_bytes corrupt_log = header_bytes one_entry_log"
    by (rule header_bytes_cong) (simp_all add: corrupt_log_def)
  from delete_parse_error_not_rolled_back [OF se off sc nf] obtain log'
    where "RaftLogDelete corrupt_log 1 = Some (RR_ERROR, [(demo_entry, 1)], log')"
      "contents (file' log') = header_bytes corrupt_log" "index log' = 0" "num_entries log' = 0"
    using c(5) by (auto simp: c(2,4) fl hb)
  then have ex: "\<exists>log'. RaftLogDelete corrupt_log 1 = Some (RR_ERROR, [(demo_entry, 1)], log') \<and>
      contents (file' log') = header_bytes corrupt_log \<and>
      index log' = 0 \<and> num_entries log' = 0"
    by blast
  from se off sc have ex0: "\<exists>offset log1 log2. seekEntry corrupt_log 1 = (offset, log1) \<and>
      offset \<noteq> 0 \<and> delete_scan log1 1 = Some (RR_ERROR, [(demo_entry, 1)], log2)"
    by blast
  from nf fl ex0 ex show ?thesis by (intro conjI) assumption+
qed

end
